theory Spec2Isabelle
  imports Complex_Main "HOL-Library.Word" "HOL-Library.Log_Nat" "HOL-Library.Code_Target_Nat"
begin

section \<open>Data model (OAHashTable.h)\<close>

text \<open>
  The exception codes of \<^verbatim>\<open>OAHashTableException\<close>. Besides a thrown exception an
  operation of the model can end in four more ways, which C++ leaves undefined or
  unbounded: a slot access outside the array (\<open>OutOfBounds\<close>), a \<^verbatim>\<open>strcpy\<close> of a key
  that does not fit \<^verbatim>\<open>char Key[MAX_KEYLEN]\<close> (\<open>KeyOverflow\<close>), a new table size that
  \<^verbatim>\<open>unsigned\<close> cannot hold (\<open>Overflow\<close>), and a \<^verbatim>\<open>while\<close> loop that has not left
  after \<open>fuel\<close> iterations (\<open>OutOfFuel\<close>).
\<close>

datatype OAHASHTABLE_EXCEPTION = E_ITEM_NOT_FOUND | E_DUPLICATE | E_NO_MEMORY

datatype error = Throw OAHASHTABLE_EXCEPTION | OutOfBounds | KeyOverflow | Overflow | OutOfFuel

datatype OAHTDeletionPolicy = MARK | PACK

datatype OAHTSlot_State = OCCUPIED | UNOCCUPIED | DELETED

definition MAX_KEYLEN :: nat where
  "MAX_KEYLEN = 32"

text \<open>
  \<^verbatim>\<open>struct OAHTSlot\<close>. Its field \<^verbatim>\<open>int probes\<close> ("for testing") is never read or
  written by the code and is left out.
\<close>

record 'v OAHTSlot =
  Key :: string
  Data :: 'v
  State :: OAHTSlot_State

text \<open>
  \<^verbatim>\<open>struct OAHTConfig\<close>. The trailing underscore of the C++ field names is dropped.
  The two \<^verbatim>\<open>double\<close> fields are given as rationals, the decimal values a client
  writes; the field holds the double nearest to that value, \<open>fl\<close> of it (below), and
  the operations read the fields through \<open>fl\<close>.
  A \<^verbatim>\<open>HASHFUNC\<close> is a function from the key and a table size to a natural number.
  \<open>FreeProc\<close> says whether a release callback is configured; the values handed to it
  are logged in the table's \<open>freed\<close> list. \<open>Blank\<close> is a parameter of the model: the
  \<^verbatim>\<open>Data\<close> a freshly allocated slot holds (indeterminate in C++, and never read
  before it is written).
\<close>

record 'v OAHTConfig =
  InitialTableSize :: nat
  PrimaryHashFunc :: "string \<Rightarrow> nat \<Rightarrow> nat"
  SecondaryHashFunc :: "(string \<Rightarrow> nat \<Rightarrow> nat) option"
  MaxLoadFactor :: rat
  GrowthFactor :: rat
  DeletionPolicy :: OAHTDeletionPolicy
  FreeProc :: bool
  Blank :: 'v

text \<open>
  The table object: \<^verbatim>\<open>mTable\<close> and the fields of \<^verbatim>\<open>mStats\<close> (the two hash
  function pointers that \<^verbatim>\<open>OAHTStats\<close> copies from the configuration are never read and
  are left out). \<^verbatim>\<open>Count_\<close>, \<^verbatim>\<open>Probes_\<close> and \<^verbatim>\<open>Expansions_\<close> are 32-bit
  \<^verbatim>\<open>unsigned\<close> values and wrap around; \<^verbatim>\<open>TableSize_\<close> is the length of the array.
\<close>

record 'v OAHashTable =
  mTable :: "'v OAHTSlot list"
  Count :: "32 word"
  TableSize :: nat
  Probes :: "32 word"
  Expansions :: "32 word"
  freed :: "'v list"

section \<open>Double arithmetic\<close>

text \<open>
  The arithmetic of \<^verbatim>\<open>double\<close> (IEEE 754 binary64, round to nearest, ties to even)
  on rationals. \<open>round_he\<close> rounds to the nearest integer, a tie to the even one.
  \<open>dexp x\<close> is the exponent of the last of the 53 significant bits of \<open>x > 0\<close>,
  and \<open>- 1074\<close> for a subnormal number. \<open>fl x\<close> is the double nearest to \<open>x\<close>: the
  value of a decimal literal, and the result of a division or a multiplication of two
  doubles with exact result \<open>x\<close>. Infinities are not modelled: the two doubles of a
  configuration are finite, and a result of magnitude \<open>2 ^ 1024\<close> or more stays what
  it is. The code forms such a result only in \<^verbatim>\<open>GrowTable\<close>, which converts it to
  \<^verbatim>\<open>unsigned\<close>: undefined for an infinity as for the number.
\<close>

definition round_he :: "rat \<Rightarrow> int" where
  "round_he r =
     (let f = \<lfloor>r\<rfloor>; d = r - of_int f
      in if d < 1 / 2 then f else if 1 / 2 < d then f + 1 else if even f then f else f + 1)"

definition dexp :: "rat \<Rightarrow> int" where
  "dexp x =
     (case quotient_of x of
        (p, q) \<Rightarrow>
          let e = bitlen p - bitlen q - 53
          in max (if x < 2 powi (e + 53) then e else e + 1) (- 1074))"

definition fl :: "rat \<Rightarrow> rat" where
  "fl x =
     (if x = 0 then 0
      else sgn x * of_int (round_he (\<bar>x\<bar> / 2 powi dexp \<bar>x\<bar>)) * 2 powi dexp \<bar>x\<bar>)"

section \<open>Unsigned index arithmetic\<close>

text \<open>\<^verbatim>\<open>unsigned\<close> addition and subtraction on indices, with the wrap-around written out.\<close>

definition uadd :: "nat \<Rightarrow> nat \<Rightarrow> nat" where
  "uadd a b = (a + b) mod 2 ^ 32"

definition usub :: "nat \<Rightarrow> nat \<Rightarrow> nat" where
  "usub a b = (a + 2 ^ 32 - b mod 2 ^ 32) mod 2 ^ 32"

text \<open>
  The step all three probe loops share:
  \<^verbatim>\<open>index += stride; if (index > tableSize - 1) index -= tableSize;\<close>
\<close>

definition probe_step :: "nat \<Rightarrow> nat \<Rightarrow> nat \<Rightarrow> nat" where
  "probe_step tableSize stride index =
     (let i = uadd index stride
      in if i > usub tableSize 1 then usub i tableSize else i)"

text \<open>
  \<^verbatim>\<open>stride = 1; if (SecondaryHashFunc_) stride = SecondaryHashFunc_(Key, tableSize - 1) + 1;\<close>
\<close>

definition probe_stride :: "'v OAHTConfig \<Rightarrow> string \<Rightarrow> nat \<Rightarrow> nat" where
  "probe_stride cfg key tableSize =
     (case SecondaryHashFunc cfg of
        None \<Rightarrow> 1
      | Some h \<Rightarrow> uadd (h key (usub tableSize 1)) 1)"

section \<open>GetClosestPrime\<close>

fun has_divisor_from :: "nat \<Rightarrow> nat \<Rightarrow> nat \<Rightarrow> bool" where
  "has_divisor_from 0 d n = False"
| "has_divisor_from (Suc c) d n = (d dvd n \<or> has_divisor_from c (Suc d) n)"

definition is_prime :: "nat \<Rightarrow> bool" where
  "is_prime n = (2 \<le> n \<and> \<not> has_divisor_from (n - 2) 2 n)"

lemma has_divisor_from_iff:
  "has_divisor_from c d n \<longleftrightarrow> (\<exists>e. d \<le> e \<and> e < d + c \<and> e dvd n)"
proof (induction c arbitrary: d)
  case 0
  show ?case by simp
next
  case (Suc c)
  have "(\<exists>e. d \<le> e \<and> e < d + Suc c \<and> e dvd n) \<longleftrightarrow>
        (d dvd n \<or> (\<exists>e. Suc d \<le> e \<and> e < Suc d + c \<and> e dvd n))"
    by (metis Suc_leI add_Suc add_Suc_right le_eq_less_or_eq less_add_Suc1 Suc_le_lessD)
  with Suc show ?case by simp
qed

lemma is_prime_iff:
  "is_prime n \<longleftrightarrow> 2 \<le> n \<and> (\<forall>e. 2 \<le> e \<and> e < n \<longrightarrow> \<not> e dvd n)"
  by (auto simp: is_prime_def has_divisor_from_iff)

lemma prime_divisor_exists: "2 \<le> n \<Longrightarrow> \<exists>p. is_prime p \<and> p dvd n"
proof (induction n rule: less_induct)
  case (less n)
  show ?case
  proof (cases "is_prime n")
    case True
    then show ?thesis by (intro exI [of _ n]) simp
  next
    case False
    with less.prems obtain e where e: "2 \<le> e" "e < n" "e dvd n"
      by (auto simp: is_prime_iff)
    from less.IH [OF e(2) e(1)] obtain p where "is_prime p" "p dvd e" by blast
    with e(3) show ?thesis by (blast intro: dvd_trans)
  qed
qed

lemma prime_above: "\<exists>p. is_prime p \<and> n \<le> p"
proof -
  have "2 \<le> fact n + (1::nat)"
    by (simp add: Suc_le_eq)
  then obtain p where p: "is_prime p" "p dvd fact n + 1"
    using prime_divisor_exists by blast
  have "n < p"
  proof (rule ccontr)
    assume "\<not> n < p"
    moreover from p(1) have "1 \<le> p" by (simp add: is_prime_iff)
    ultimately have "p dvd fact n" by (simp add: dvd_fact)
    with p(2) have "p dvd 1" using dvd_add_right_iff [of p "fact n" 1] by simp
    with p(1) show False by (simp add: is_prime_iff)
  qed
  with p(1) show ?thesis by (blast intro: less_imp_le)
qed

text \<open>
  Modelled from the spec: \<^verbatim>\<open>GetClosestPrime\<close> is declared in \<^verbatim>\<open>Support.h\<close>, which is
  not among the source files. The spec (4.4) gives the new capacity as the "smallest
  prime \<open>\<ge> ceil(oldCapacity * GrowthFactor)\<close>", so \<open>GetClosestPrime n\<close> is the smallest
  prime that is at least \<open>n\<close>, found by searching upwards.
\<close>

function GetClosestPrime :: "nat \<Rightarrow> nat" where
  "GetClosestPrime n = (if is_prime n then n else GetClosestPrime (Suc n))"
  by pat_completeness auto
termination
proof (relation "measure (\<lambda>n. (LEAST p. is_prime p \<and> n \<le> p) - n)")
  show "wf (measure (\<lambda>n. (LEAST p. is_prime p \<and> n \<le> p) - n))" by simp
next
  fix n :: nat
  assume np: "\<not> is_prime n"
  let ?P = "\<lambda>m p. is_prime p \<and> m \<le> p"
  obtain q where q: "?P n q" using prime_above by blast
  have l: "?P n (LEAST p. ?P n p)" by (rule LeastI [of "?P n", OF q])
  with np have "(LEAST p. ?P n p) \<noteq> n" by auto
  with l have gt: "Suc n \<le> (LEAST p. ?P n p)" by simp
  with l have "?P (Suc n) (LEAST p. ?P n p)" by simp
  then have "(LEAST p. ?P (Suc n) p) \<le> (LEAST p. ?P n p)" by (rule Least_le)
  with gt show "(Suc n, n) \<in> measure (\<lambda>n. (LEAST p. is_prime p \<and> n \<le> p) - n)"
    by simp
qed

declare GetClosestPrime.simps [simp del]

section \<open>The operations (OAHashTable.cpp)\<close>

text \<open>
  Every \<^verbatim>\<open>while\<close> loop is a recursion on \<open>fuel\<close>, the number of times its condition
  may be evaluated; a loop that is still running when the fuel is used up ends in
  \<open>OutOfFuel\<close>. Each loop invocation gets the whole \<open>fuel\<close>. A slot access
  \<^verbatim>\<open>table[index]\<close> with \<open>index\<close> outside the array ends in \<open>OutOfBounds\<close>. An
  operation returns the table as the exit (normal or not) leaves it, so that the effect
  of a call that throws can be stated.
\<close>

definition fresh_slot :: "'v OAHTConfig \<Rightarrow> 'v OAHTSlot" where
  "fresh_slot cfg = \<lparr>Key = [], Data = Blank cfg, State = UNOCCUPIED\<rparr>"

text \<open>The constructor: an array of \<^verbatim>\<open>InitialTableSize_\<close> unoccupied slots, zeroed statistics.\<close>

definition OAHashTable :: "'v OAHTConfig \<Rightarrow> 'v OAHashTable" where
  "OAHashTable cfg =
     \<lparr>mTable = replicate (InitialTableSize cfg) (fresh_slot cfg),
      Count = 0, TableSize = InitialTableSize cfg, Probes = 0, Expansions = 0,
      freed = []\<rparr>"

text \<open>
  The \<^verbatim>\<open>while\<close> loop of \<^verbatim>\<open>InsertInTable\<close> (lines 207-224): the search for a slot
  that is not occupied. It yields the index at which the loop leaves.
\<close>

fun InsertInTable_probe ::
  "nat \<Rightarrow> 'v OAHTSlot list \<Rightarrow> nat \<Rightarrow> string \<Rightarrow> nat \<Rightarrow> nat \<Rightarrow> 32 word
     \<Rightarrow> (error + nat) \<times> 32 word" where
  "InsertInTable_probe 0 table tableSize key stride index probes = (Inl OutOfFuel, probes)"
| "InsertInTable_probe (Suc fuel) table tableSize key stride index probes =
     (if length table \<le> index then (Inl OutOfBounds, probes)
      else if State (table ! index) = OCCUPIED then
        (if Key (table ! index) = key then (Inl (Throw E_DUPLICATE), probes)
         else InsertInTable_probe fuel table tableSize key stride
                (probe_step tableSize stride index) (probes + 1))
      else (Inr index, probes))"

text \<open>
  The \<^verbatim>\<open>while\<close> loop of \<^verbatim>\<open>CheckForMarkInsertionDuplicate\<close> (lines 374-392), and the
  function itself: the scan starts at \<^verbatim>\<open>index + stride\<close>, which line 371 does not wrap.
\<close>

fun CheckForMark_scan ::
  "nat \<Rightarrow> 'v OAHTSlot list \<Rightarrow> nat \<Rightarrow> string \<Rightarrow> nat \<Rightarrow> nat \<Rightarrow> 32 word
     \<Rightarrow> error option \<times> 32 word" where
  "CheckForMark_scan 0 table tableSize key stride index probes = (Some OutOfFuel, probes)"
| "CheckForMark_scan (Suc fuel) table tableSize key stride index probes =
     (if length table \<le> index then (Some OutOfBounds, probes)
      else if State (table ! index) = DELETED \<or> State (table ! index) = OCCUPIED then
        (if Key (table ! index) = key then (Some (Throw E_DUPLICATE), probes + 1)
         else CheckForMark_scan fuel table tableSize key stride
                (probe_step tableSize stride index) (probes + 1))
      else (None, probes))"

definition CheckForMarkInsertionDuplicate ::
  "nat \<Rightarrow> nat \<Rightarrow> nat \<Rightarrow> 'v OAHTSlot list \<Rightarrow> nat \<Rightarrow> string \<Rightarrow> 32 word
     \<Rightarrow> error option \<times> 32 word" where
  "CheckForMarkInsertionDuplicate fuel index stride table tableSize key probes =
     (case CheckForMark_scan fuel table tableSize key stride (uadd index stride) probes of
        (None, p) \<Rightarrow> (None, p + 1)
      | (Some e, p) \<Rightarrow> (Some e, p))"

text \<open>
  \<^verbatim>\<open>InsertInTable\<close>: the probe, the duplicate guard when the slot found is a tombstone
  under MARK, then the write. It yields the new array, or the error; the second
  component is \<^verbatim>\<open>mStats.Probes_\<close>.
\<close>

definition InsertInTable ::
  "nat \<Rightarrow> 'v OAHTConfig \<Rightarrow> 'v OAHTSlot list \<Rightarrow> nat \<Rightarrow> string \<Rightarrow> 'v \<Rightarrow> 32 word
     \<Rightarrow> (error + 'v OAHTSlot list) \<times> 32 word" where
  "InsertInTable fuel cfg table tableSize key data probes =
     (let stride = probe_stride cfg key tableSize
      in case InsertInTable_probe fuel table tableSize key stride
                (PrimaryHashFunc cfg key tableSize) probes of
           (Inl e, p) \<Rightarrow> (Inl e, p)
         | (Inr index, p) \<Rightarrow>
             (case (if State (table ! index) = DELETED \<and> DeletionPolicy cfg = MARK
                    then CheckForMarkInsertionDuplicate fuel index stride table tableSize key p
                    else (None, p)) of
                (Some e, p') \<Rightarrow> (Inl e, p')
              | (None, p') \<Rightarrow>
                  if MAX_KEYLEN \<le> length key then (Inl KeyOverflow, p' + 1)
                  else (Inr (table[index := \<lparr>Key = key, Data = data, State = OCCUPIED\<rparr>]),
                        p' + 1)))"

text \<open>
  \<^verbatim>\<open>GrowTable\<close>. Line 250 multiplies \<^verbatim>\<open>TableSize_\<close>, converted to \<^verbatim>\<open>double\<close>, by
  \<^verbatim>\<open>GrowthFactor_\<close> and rounds the product up to a whole number (\<open>grow_target\<close>).
  Line 251 converts that number to \<^verbatim>\<open>unsigned\<close>, which C++ defines only for a value
  in \<open>[0, 2 ^ 32)\<close>, and \<^verbatim>\<open>GetClosestPrime\<close> returns an \<^verbatim>\<open>unsigned\<close>: when the number
  or the prime does not fit (\<open>grow_fits\<close>), \<^verbatim>\<open>GrowTable\<close> ends in \<open>Overflow\<close>. Then
  the copy loop over the old array in ascending index order (lines 263-269), and the
  installation of the new array. When a reinsertion throws, \<^verbatim>\<open>mTable\<close> and
  \<^verbatim>\<open>TableSize_\<close> have not been assigned yet.
\<close>

definition grow_target :: "'v OAHTConfig \<Rightarrow> nat \<Rightarrow> int" where
  "grow_target cfg tableSize = \<lceil>fl (of_nat tableSize * fl (GrowthFactor cfg))\<rceil>"

definition grow_size :: "'v OAHTConfig \<Rightarrow> nat \<Rightarrow> nat" where
  "grow_size cfg tableSize = GetClosestPrime (nat (grow_target cfg tableSize))"

definition grow_fits :: "'v OAHTConfig \<Rightarrow> nat \<Rightarrow> bool" where
  "grow_fits cfg tableSize \<longleftrightarrow>
     0 \<le> grow_target cfg tableSize \<and> grow_target cfg tableSize < 2 ^ 32 \<and>
     grow_size cfg tableSize < 2 ^ 32"

fun GrowTable_copy ::
  "nat \<Rightarrow> 'v OAHTConfig \<Rightarrow> 'v OAHTSlot list \<Rightarrow> 'v OAHTSlot list \<Rightarrow> nat \<Rightarrow> 32 word
     \<Rightarrow> (error + 'v OAHTSlot list) \<times> 32 word" where
  "GrowTable_copy fuel cfg [] newTable newTableSize probes = (Inr newTable, probes)"
| "GrowTable_copy fuel cfg (s # old) newTable newTableSize probes =
     (if State s = OCCUPIED then
        (case InsertInTable fuel cfg newTable newTableSize (Key s) (Data s) probes of
           (Inl e, p) \<Rightarrow> (Inl e, p)
         | (Inr newTable', p) \<Rightarrow> GrowTable_copy fuel cfg old newTable' newTableSize p)
      else GrowTable_copy fuel cfg old newTable newTableSize probes)"

definition GrowTable ::
  "nat \<Rightarrow> 'v OAHTConfig \<Rightarrow> 'v OAHashTable \<Rightarrow> error option \<times> 'v OAHashTable" where
  "GrowTable fuel cfg t =
     (if grow_fits cfg (TableSize t) then
        (let newTableSize = grow_size cfg (TableSize t)
         in case GrowTable_copy fuel cfg (mTable t)
                   (replicate newTableSize (fresh_slot cfg)) newTableSize (Probes t) of
              (Inl e, p) \<Rightarrow> (Some e, t\<lparr>Probes := p\<rparr>)
            | (Inr newTable, p) \<Rightarrow>
                (None, t\<lparr>mTable := newTable, TableSize := newTableSize, Probes := p,
                         Expansions := Expansions t + 1\<rparr>))
      else (Some Overflow, t))"

text \<open>
  \<^verbatim>\<open>insert\<close>. The guard is
  \<^verbatim>\<open>static_cast<double>(Count_ + 1) / static_cast<double>(TableSize_) > MaxLoadFactor_\<close>:
  the two conversions are exact, the quotient is rounded to a double and compared with
  the double in \<^verbatim>\<open>MaxLoadFactor_\<close>. With a table of size 0 the quotient is infinite
  (or not a number, for \<open>0 / 0\<close>, which compares false).
\<close>

definition load_exceeds :: "32 word \<Rightarrow> nat \<Rightarrow> rat \<Rightarrow> bool" where
  "load_exceeds count tableSize maxLoad =
     (if tableSize = 0 then count + 1 \<noteq> 0
      else fl maxLoad < fl (of_nat (unat (count + 1)) / of_nat tableSize))"

definition insert_ht ::
  "nat \<Rightarrow> 'v OAHTConfig \<Rightarrow> 'v OAHashTable \<Rightarrow> string \<Rightarrow> 'v
     \<Rightarrow> error option \<times> 'v OAHashTable" where
  "insert_ht fuel cfg t key data =
     (case (if load_exceeds (Count t) (TableSize t) (MaxLoadFactor cfg)
            then GrowTable fuel cfg t else (None, t)) of
        (Some e, t1) \<Rightarrow> (Some e, t1)
      | (None, t1) \<Rightarrow>
          (case InsertInTable fuel cfg (mTable t1) (TableSize t1) key data (Probes t1) of
             (Inl e, p) \<Rightarrow> (Some e, t1\<lparr>Probes := p\<rparr>)
           | (Inr table, p) \<Rightarrow>
               (None, t1\<lparr>mTable := table, Probes := p, Count := Count t1 + 1\<rparr>)))"

text \<open>
  \<^verbatim>\<open>IndexOf\<close>: the walk (lines 306-334) and the function. The result \<open>None\<close> is the
  \<^verbatim>\<open>-1\<close> of the source, \<open>Some index\<close> the index of the slot \<^verbatim>\<open>Slot\<close> is set to
  (the source returns it as an \<^verbatim>\<open>int\<close>, which is the same number for a table of
  fewer than \<open>2 ^ 31\<close> slots).
\<close>

fun IndexOf_walk ::
  "nat \<Rightarrow> 'v OAHTSlot list \<Rightarrow> nat \<Rightarrow> string \<Rightarrow> nat \<Rightarrow> nat \<Rightarrow> nat \<Rightarrow> 32 word
     \<Rightarrow> (error + nat option) \<times> 32 word" where
  "IndexOf_walk 0 table tableSize key stride originalIndex index probes =
     (Inl OutOfFuel, probes)"
| "IndexOf_walk (Suc fuel) table tableSize key stride originalIndex index probes =
     (if length table \<le> index then (Inl OutOfBounds, probes)
      else if State (table ! index) = OCCUPIED \<or> State (table ! index) = DELETED then
        (if Key (table ! index) = key then (Inr (Some index), probes + 1)
         else let index' = probe_step tableSize stride index
              in if length table \<le> index' then (Inl OutOfBounds, probes + 1)
                 else let probes' = (if State (table ! index') = UNOCCUPIED
                                     then probes + 2 else probes + 1)
                      in if index' = originalIndex then (Inr None, probes')
                         else IndexOf_walk fuel table tableSize key stride originalIndex
                                index' probes')
      else (Inr None, probes))"

definition IndexOf ::
  "nat \<Rightarrow> 'v OAHTConfig \<Rightarrow> 'v OAHashTable \<Rightarrow> string \<Rightarrow> (error + nat option) \<times> 32 word" where
  "IndexOf fuel cfg t key =
     (let index = PrimaryHashFunc cfg key (TableSize t);
          stride = probe_stride cfg key (TableSize t)
      in if length (mTable t) \<le> index then (Inl OutOfBounds, Probes t)
         else IndexOf_walk fuel (mTable t) (TableSize t) key stride index index
                (if State (mTable t ! index) = UNOCCUPIED then Probes t + 1 else Probes t))"

text \<open>\<^verbatim>\<open>find\<close>: the data of the slot \<^verbatim>\<open>IndexOf\<close> found, or \<^verbatim>\<open>E_ITEM_NOT_FOUND\<close>.\<close>

definition find_ht ::
  "nat \<Rightarrow> 'v OAHTConfig \<Rightarrow> 'v OAHashTable \<Rightarrow> string \<Rightarrow> (error + 'v) \<times> 'v OAHashTable" where
  "find_ht fuel cfg t key =
     (case IndexOf fuel cfg t key of
        (Inl e, p) \<Rightarrow> (Inl e, t\<lparr>Probes := p\<rparr>)
      | (Inr None, p) \<Rightarrow> (Inl (Throw E_ITEM_NOT_FOUND), t\<lparr>Probes := p\<rparr>)
      | (Inr (Some index), p) \<Rightarrow> (Inr (Data (mTable t ! index)), t\<lparr>Probes := p\<rparr>))"

text \<open>
  \<^verbatim>\<open>remove\<close>. \<open>next_slot\<close> is \<^verbatim>\<open>index++\<close> with the wrap to 0 (lines 95-101 and
  112-118); \<open>remove_pack_loop\<close> is the loop over the rest of the cluster (lines 104-119),
  which yields the array as it stands when the loop leaves or a reinsertion throws; its
  first argument counts the loop's own iterations, the second is the fuel of the
  reinsertions.
\<close>

definition next_slot :: "nat \<Rightarrow> nat \<Rightarrow> nat" where
  "next_slot tableSize index = (if usub tableSize 1 < index + 1 then 0 else index + 1)"

fun remove_pack_loop ::
  "nat \<Rightarrow> nat \<Rightarrow> 'v OAHTConfig \<Rightarrow> 'v OAHTSlot list \<Rightarrow> nat \<Rightarrow> nat \<Rightarrow> nat \<Rightarrow> 32 word
     \<Rightarrow> error option \<times> 'v OAHTSlot list \<times> 32 word" where
  "remove_pack_loop 0 fuel cfg table tableSize originalIndex index probes =
     (Some OutOfFuel, table, probes)"
| "remove_pack_loop (Suc n) fuel cfg table tableSize originalIndex index probes =
     (if length table \<le> index then (Some OutOfBounds, table, probes)
      else if State (table ! index) = OCCUPIED \<and> index \<noteq> originalIndex then
        (let table1 = table[index := (table ! index)\<lparr>State := UNOCCUPIED\<rparr>]
         in case InsertInTable fuel cfg table1 tableSize (Key (table ! index))
                   (Data (table ! index)) probes of
              (Inl e, p) \<Rightarrow> (Some e, table1, p)
            | (Inr table2, p) \<Rightarrow>
                remove_pack_loop n fuel cfg table2 tableSize originalIndex
                  (next_slot tableSize index) p)
      else (None, table, probes))"

definition remove_ht ::
  "nat \<Rightarrow> 'v OAHTConfig \<Rightarrow> 'v OAHashTable \<Rightarrow> string \<Rightarrow> error option \<times> 'v OAHashTable" where
  "remove_ht fuel cfg t key =
     (case IndexOf fuel cfg t key of
        (Inl e, p) \<Rightarrow> (Some e, t\<lparr>Probes := p\<rparr>)
      | (Inr None, p) \<Rightarrow> (Some (Throw E_ITEM_NOT_FOUND), t\<lparr>Probes := p\<rparr>)
      | (Inr (Some index), p) \<Rightarrow>
          (let t1 = t\<lparr>Probes := p, Count := Count t - 1\<rparr>
           in case DeletionPolicy cfg of
                PACK \<Rightarrow>
                  (let t2 = t1\<lparr>freed := (if FreeProc cfg
                                          then freed t1 @ [Data (mTable t1 ! index)]
                                          else freed t1),
                                mTable := (mTable t1)
                                  [index := (mTable t1 ! index)\<lparr>State := UNOCCUPIED\<rparr>]\<rparr>
                   in case remove_pack_loop fuel fuel cfg (mTable t2) (TableSize t2) index
                             (next_slot (TableSize t2) index) (Probes t2) of
                        (r, table, p') \<Rightarrow> (r, t2\<lparr>mTable := table, Probes := p'\<rparr>))
              | MARK \<Rightarrow>
                  (None, t1\<lparr>mTable := (mTable t1)
                                [index := (mTable t1 ! index)\<lparr>State := DELETED\<rparr>]\<rparr>)))"

text \<open>
  \<^verbatim>\<open>clear\<close>: the loop over all slots, carrying \<^verbatim>\<open>Count_\<close> and the log of released
  values.
\<close>

fun clear_loop ::
  "bool \<Rightarrow> 'v OAHTSlot list \<Rightarrow> 32 word \<Rightarrow> 'v list \<Rightarrow> 'v OAHTSlot list \<times> 32 word \<times> 'v list" where
  "clear_loop fp [] count fr = ([], count, fr)"
| "clear_loop fp (s # ss) count fr =
     (if State s \<noteq> UNOCCUPIED then
        (case clear_loop fp ss (if State s \<noteq> DELETED then count - 1 else count)
                (if fp then fr @ [Data s] else fr) of
           (ss', count', fr') \<Rightarrow> (s\<lparr>State := UNOCCUPIED\<rparr> # ss', count', fr'))
      else
        (case clear_loop fp ss count fr of
           (ss', count', fr') \<Rightarrow> (s # ss', count', fr')))"

definition clear_ht :: "'v OAHTConfig \<Rightarrow> 'v OAHashTable \<Rightarrow> 'v OAHashTable" where
  "clear_ht cfg t =
     (case clear_loop (FreeProc cfg) (mTable t) (Count t) (freed t) of
        (table, count, fr) \<Rightarrow> t\<lparr>mTable := table, Count := count, freed := fr\<rparr>)"

section \<open>Sequences of operations\<close>

text \<open>
  A client's calls, one after the other. A thrown exception is caught by the client,
  which goes on with the table as the throwing call left it; after \<open>OutOfBounds\<close>,
  \<open>KeyOverflow\<close>, \<open>Overflow\<close> or \<open>OutOfFuel\<close> there is no next call.
\<close>

datatype 'v operation = Insert string 'v | Remove string | Find string | Clear

fun run_op ::
  "nat \<Rightarrow> 'v OAHTConfig \<Rightarrow> 'v OAHashTable \<Rightarrow> 'v operation
     \<Rightarrow> (error + 'v option) \<times> 'v OAHashTable" where
  "run_op fuel cfg t (Insert key data) =
     (case insert_ht fuel cfg t key data of
        (None, t') \<Rightarrow> (Inr None, t') | (Some e, t') \<Rightarrow> (Inl e, t'))"
| "run_op fuel cfg t (Remove key) =
     (case remove_ht fuel cfg t key of
        (None, t') \<Rightarrow> (Inr None, t') | (Some e, t') \<Rightarrow> (Inl e, t'))"
| "run_op fuel cfg t (Find key) =
     (case find_ht fuel cfg t key of
        (Inr d, t') \<Rightarrow> (Inr (Some d), t') | (Inl e, t') \<Rightarrow> (Inl e, t'))"
| "run_op fuel cfg t Clear = (Inr None, clear_ht cfg t)"

fun run_ops ::
  "nat \<Rightarrow> 'v OAHTConfig \<Rightarrow> 'v OAHashTable \<Rightarrow> 'v operation list \<Rightarrow> 'v OAHashTable option" where
  "run_ops fuel cfg t [] = Some t"
| "run_ops fuel cfg t (op # ops) =
     (case run_op fuel cfg t op of
        (Inr r, t') \<Rightarrow> run_ops fuel cfg t' ops
      | (Inl (Throw e), t') \<Rightarrow> run_ops fuel cfg t' ops
      | (Inl e, t') \<Rightarrow> None)"

text \<open>The results of the calls, in order, up to the first call that does not come back.\<close>

fun trace_ops ::
  "nat \<Rightarrow> 'v OAHTConfig \<Rightarrow> 'v OAHashTable \<Rightarrow> 'v operation list \<Rightarrow> (error + 'v option) list" where
  "trace_ops fuel cfg t [] = []"
| "trace_ops fuel cfg t (op # ops) =
     (case run_op fuel cfg t op of
        (Inr r, t') \<Rightarrow> Inr r # trace_ops fuel cfg t' ops
      | (Inl (Throw e), t') \<Rightarrow> Inl (Throw e) # trace_ops fuel cfg t' ops
      | (Inl e, t') \<Rightarrow> [Inl e])"

text \<open>The number of occupied slots, and the keys they hold.\<close>

definition occupied :: "'v OAHTSlot list \<Rightarrow> nat" where
  "occupied table = length (filter (\<lambda>s. State s = OCCUPIED) table)"

definition present :: "'v OAHTSlot list \<Rightarrow> string \<Rightarrow> bool" where
  "present table key = (\<exists>s \<in> set table. State s = OCCUPIED \<and> Key s = key)"

text \<open>
  Example configurations: capacity 3, a primary hash function that maps a key to its
  length modulo the table size, linear probing, growth factor 2.
\<close>

definition length_hash :: "string \<Rightarrow> nat \<Rightarrow> nat" where
  "length_hash key tableSize = length key mod tableSize"

definition example_cfg :: "OAHTDeletionPolicy \<Rightarrow> rat \<Rightarrow> nat OAHTConfig" where
  "example_cfg policy maxLoad =
     \<lparr>InitialTableSize = 3, PrimaryHashFunc = length_hash, SecondaryHashFunc = None,
      MaxLoadFactor = maxLoad, GrowthFactor = 2, DeletionPolicy = policy,
      FreeProc = False, Blank = 0\<rparr>"

text \<open>
  The same with double hashing and a capacity of choice: both hash functions are
  \<open>length_hash\<close>, so the stride of a key is its length modulo the table size less
  one, plus one.
\<close>

definition double_cfg :: "nat \<Rightarrow> OAHTDeletionPolicy \<Rightarrow> rat \<Rightarrow> nat OAHTConfig" where
  "double_cfg n policy maxLoad =
     \<lparr>InitialTableSize = n, PrimaryHashFunc = length_hash,
      SecondaryHashFunc = Some length_hash, MaxLoadFactor = maxLoad, GrowthFactor = 2,
      DeletionPolicy = policy, FreeProc = False, Blank = 0\<rparr>"

section \<open>The probe step as modular arithmetic\<close>

lemma wrap_sub:
  fixes a b N :: nat
  assumes "b \<le> a" "a < N"
  shows "(a + N - b mod N) mod N = a - b"
proof -
  have 1: "b mod N = b" using assms by simp
  have 2: "a + N - b = (a - b) + N" using assms by simp
  have 3: "a - b < N" using assms by simp
  show ?thesis unfolding 1 2 using 3 by simp
qed

lemma usub_small: "b \<le> a \<Longrightarrow> a < 2 ^ 32 \<Longrightarrow> usub a b = a - b"
  unfolding usub_def by (rule wrap_sub)

lemma uadd_small: "a + b < 2 ^ 32 \<Longrightarrow> uadd a b = a + b"
  unfolding uadd_def by (rule mod_less)

text \<open>
  On a table of at most \<open>2 ^ 31\<close> slots the unsigned sum cannot wrap, and one
  conditional subtraction is the reduction modulo the table size.
\<close>

lemma probe_step_mod:
  assumes "0 < m" "m \<le> 2 ^ 31" "i < m" "s \<le> m"
  shows "probe_step m s i = (i + s) mod m"
proof -
  have p: "(2::nat) ^ 32 = 2 ^ 31 + 2 ^ 31" by simp
  have b: "i + s < 2 ^ 32" "m < 2 ^ 32" unfolding p using assms by linarith+
  have 1: "uadd i s = i + s" using b by (simp only: uadd_small)
  have 2: "usub m 1 = m - 1" using assms b by (simp only: usub_small)
  show ?thesis
  proof (cases "m - 1 < i + s")
    case True
    then have le: "m \<le> i + s" using assms by linarith
    then have "usub (i + s) m = i + s - m" using b by (simp only: usub_small)
    moreover have "(i + s) mod m = i + s - m"
      using le assms by (simp add: mod_if)
    ultimately show ?thesis using True unfolding probe_step_def Let_def 1 2 by simp
  next
    case False
    then have "i + s < m" using assms by linarith
    then show ?thesis using False unfolding probe_step_def Let_def 1 2 by simp
  qed
qed

section \<open>The duplicate guard on a table without an unoccupied slot\<close>

text \<open>
  The scan of \<^verbatim>\<open>CheckForMarkInsertionDuplicate\<close> leaves only at an unoccupied slot or
  at a slot that holds the key. On a table that has neither it uses up any fuel.
\<close>

lemma CheckForMark_scan_no_exit:
  assumes "\<forall>s \<in> set table. State s \<noteq> UNOCCUPIED \<and> Key s \<noteq> key"
    and "length table = m" "0 < m" "m \<le> 2 ^ 31" "stride \<le> m"
  shows "index < m \<Longrightarrow>
    fst (CheckForMark_scan fuel table m key stride index probes) = Some OutOfFuel"
proof (induction fuel arbitrary: index probes)
  case 0
  show ?case by simp
next
  case (Suc fuel)
  from Suc.prems assms(2) have mem: "table ! index \<in> set table" by simp
  with assms(1) have st: "State (table ! index) \<noteq> UNOCCUPIED" "Key (table ! index) \<noteq> key"
    by blast+
  have nx: "probe_step m stride index < m"
    using probe_step_mod [OF assms(3,4) Suc.prems assms(5)] assms(3) by simp
  from st(1) have "State (table ! index) = DELETED \<or> State (table ! index) = OCCUPIED"
    by (cases "State (table ! index)") simp_all
  then show ?case using Suc.prems assms(2) st(2) Suc.IH [OF nx] by simp
qed

lemma InsertInTable_tombs_no_exit:
  assumes mark: "DeletionPolicy cfg = MARK"
    and tombs: "\<forall>s \<in> set table. State s \<noteq> UNOCCUPIED \<and> Key s \<noteq> key"
    and len: "length table = m" and m: "m \<le> 2 ^ 31"
    and start: "State (table ! PrimaryHashFunc cfg key m) = DELETED"
    and nowrap: "PrimaryHashFunc cfg key m + probe_stride cfg key m < m"
  shows "fst (InsertInTable fuel cfg table m key data probes) = Inl OutOfFuel"
proof (cases fuel)
  case 0
  then show ?thesis by (simp add: InsertInTable_def)
next
  case (Suc n)
  let ?h = "PrimaryHashFunc cfg key m" and ?s = "probe_stride cfg key m"
  from nowrap have hm: "?h < m" and sm: "?s \<le> m" and m0: "0 < m" by simp_all
  have probe: "InsertInTable_probe (Suc n) table m key ?s ?h probes = (Inr ?h, probes)"
    using hm len start by simp
  have "?h + ?s < 2 ^ 32" using nowrap m by simp
  then have first: "uadd ?h ?s = ?h + ?s" by (rule uadd_small)
  obtain r q where scan: "CheckForMark_scan (Suc n) table m key ?s (?h + ?s) probes = (r, q)"
    by (cases "CheckForMark_scan (Suc n) table m key ?s (?h + ?s) probes")
  have "fst (CheckForMark_scan (Suc n) table m key ?s (?h + ?s) probes) = Some OutOfFuel"
    using tombs len m0 m sm nowrap by (rule CheckForMark_scan_no_exit)
  with scan have r: "r = Some OutOfFuel" by simp
  show ?thesis
    using start mark
    by (simp add: Suc InsertInTable_def Let_def CheckForMarkInsertionDuplicate_def probe first
        scan r del: InsertInTable_probe.simps CheckForMark_scan.simps)
qed

lemma insert_ht_tombs_no_exit:
  assumes "DeletionPolicy cfg = MARK"
    and "\<not> load_exceeds (Count t) (TableSize t) (MaxLoadFactor cfg)"
    and "\<forall>s \<in> set (mTable t). State s \<noteq> UNOCCUPIED \<and> Key s \<noteq> key"
    and "length (mTable t) = TableSize t" and "TableSize t \<le> 2 ^ 31"
    and "State (mTable t ! PrimaryHashFunc cfg key (TableSize t)) = DELETED"
    and "PrimaryHashFunc cfg key (TableSize t) + probe_stride cfg key (TableSize t)
           < TableSize t"
  shows "fst (insert_ht fuel cfg t key data) = Some OutOfFuel"
proof -
  obtain r p where ins:
    "InsertInTable fuel cfg (mTable t) (TableSize t) key data (Probes t) = (r, p)"
    by (cases "InsertInTable fuel cfg (mTable t) (TableSize t) key data (Probes t)")
  have "fst (InsertInTable fuel cfg (mTable t) (TableSize t) key data (Probes t))
          = Inl OutOfFuel"
    using assms(1,3,4,5,6,7) by (rule InsertInTable_tombs_no_exit)
  with ins have "r = Inl OutOfFuel" by simp
  with ins assms(2) show ?thesis by (simp add: insert_ht_def)
qed

section \<open>Tombstones under MARK\<close>

text \<open>
  C1. The claim: when some occupied slot holds \<open>k\<close>, under either deletion policy
  \<open>remove(k)\<close> succeeds and the \<open>find(k)\<close> that follows raises \<open>NotFound\<close>. Under
  MARK the walk of \<^verbatim>\<open>IndexOf\<close> compares the key of every slot it passes, tombstones
  included (line 311 does not look at the state), so the removed key is still found:
  after \<open>insert("a", 7)\<close> and \<open>remove("a")\<close>, both of which return, \<open>find("a")\<close>
  returns 7.
\<close>

theorem mark_find_after_remove:
  "trace_ops 10 (example_cfg MARK 1) (OAHashTable (example_cfg MARK 1))
     [Insert ''a'' 7, Remove ''a'', Find ''a''] = [Inr None, Inr None, Inr (Some 7)]"
  by code_simp

text \<open>
  C2. The claim: \<open>insert(k, v)\<close> raises \<open>Duplicate\<close> exactly when an occupied slot
  holds \<open>k\<close>. The duplicate guard (line 379) compares the key of tombstones too: with
  \<open>"a"\<close> and \<open>"dddd"\<close> inserted (both hash to slot 1) and both removed, no occupied
  slot holds \<open>"dddd"\<close>, and \<open>insert("dddd", 9)\<close> throws \<^verbatim>\<open>E_DUPLICATE\<close>.
\<close>

theorem mark_insert_absent_key_duplicate:
  "(case run_ops 10 (example_cfg MARK 1) (OAHashTable (example_cfg MARK 1))
           [Insert ''a'' 1, Insert ''dddd'' 2, Remove ''dddd'', Remove ''a''] of
      None \<Rightarrow> False
    | Some t \<Rightarrow> \<not> present (mTable t) ''dddd'' \<and>
        fst (insert_ht 10 (example_cfg MARK 1) t ''dddd'' 9) = Some (Throw E_DUPLICATE))"
  by code_simp

text \<open>
  C3. The claim: after every public operation \<^verbatim>\<open>Count_\<close> is the number of occupied
  slots, also after repeated removes of one key. Under MARK the second \<open>remove("a")\<close>
  finds the tombstone and decrements \<^verbatim>\<open>Count_\<close> again: the count wraps to
  \<open>2 ^ 32 - 1\<close> while no slot is occupied.
\<close>

theorem mark_remove_twice_count:
  "trace_ops 10 (example_cfg MARK 1) (OAHashTable (example_cfg MARK 1))
     [Insert ''a'' 7, Remove ''a'', Remove ''a''] = [Inr None, Inr None, Inr None] \<and>
   (case run_ops 10 (example_cfg MARK 1) (OAHashTable (example_cfg MARK 1))
           [Insert ''a'' 7, Remove ''a'', Remove ''a''] of
      None \<Rightarrow> False
    | Some t \<Rightarrow> Count t = 4294967295 \<and> occupied (mTable t) = 0)"
  by code_simp

text \<open>A table of three tombstones.\<close>

definition tombstones :: "nat OAHashTable" where
  "tombstones =
     \<lparr>mTable = [\<lparr>Key = ''ccc'', Data = 3, State = DELETED\<rparr>,
                \<lparr>Key = ''a'', Data = 1, State = DELETED\<rparr>,
                \<lparr>Key = ''bb'', Data = 2, State = DELETED\<rparr>],
      Count = 0, TableSize = 3, Probes = 6, Expansions = 0, freed = []\<rparr>"

text \<open>
  C5. The claim: every public operation terminates on every reachable table, the
  duplicate guard included, also on a table with no unoccupied slot. Capacity 3, MARK,
  maximum load factor 1/2: three inserts, each followed by the removal of its key, leave
  three tombstones and a count of 0. The insert of a fourth key finds a tombstone at its
  first slot and enters the guard, whose loop has no exit on this table: whatever the
  fuel, the call does not come back.
\<close>

theorem mark_insert_never_returns:
  "run_ops 10 (example_cfg MARK (1 / 2)) (OAHashTable (example_cfg MARK (1 / 2)))
     [Insert ''a'' 1, Remove ''a'', Insert ''bb'' 2, Remove ''bb'',
      Insert ''ccc'' 3, Remove ''ccc''] = Some tombstones \<and>
   (\<forall>fuel. fst (insert_ht fuel (example_cfg MARK (1 / 2)) tombstones ''dddd'' 9)
              = Some OutOfFuel)"
proof
  show "run_ops 10 (example_cfg MARK (1 / 2)) (OAHashTable (example_cfg MARK (1 / 2)))
     [Insert ''a'' 1, Remove ''a'', Insert ''bb'' 2, Remove ''bb'',
      Insert ''ccc'' 3, Remove ''ccc''] = Some tombstones"
    by code_simp
next
  let ?cfg = "example_cfg MARK (1 / 2)"
  have 1: "DeletionPolicy ?cfg = MARK" by (simp add: example_cfg_def)
  have 2: "\<not> load_exceeds (Count tombstones) (TableSize tombstones) (MaxLoadFactor ?cfg)"
    by code_simp
  have 3: "\<forall>s \<in> set (mTable tombstones). State s \<noteq> UNOCCUPIED \<and> Key s \<noteq> ''dddd''"
    by (simp add: tombstones_def)
  have 4: "length (mTable tombstones) = TableSize tombstones" by (simp add: tombstones_def)
  have 5: "TableSize tombstones \<le> 2 ^ 31" by (simp add: tombstones_def)
  have 6: "State (mTable tombstones ! PrimaryHashFunc ?cfg ''dddd'' (TableSize tombstones))
             = DELETED"
    by code_simp
  have 7: "PrimaryHashFunc ?cfg ''dddd'' (TableSize tombstones)
            + probe_stride ?cfg ''dddd'' (TableSize tombstones) < TableSize tombstones"
    by code_simp
  show "\<forall>fuel. fst (insert_ht fuel ?cfg tombstones ''dddd'' 9) = Some OutOfFuel"
    using insert_ht_tombs_no_exit [OF 1 2 3 4 5 6 7] by blast
qed

text \<open>
  C7. The claim: one sequence of operations, run under MARK and under PACK with the
  same configuration, gives the same set of keys that \<open>find\<close> finds after each step.
  After \<open>insert("b", 5)\<close> and \<open>remove("b")\<close>, \<open>find("b")\<close> returns 5 under MARK and
  throws \<^verbatim>\<open>E_ITEM_NOT_FOUND\<close> under PACK.
\<close>

theorem mark_pack_find_differs:
  "trace_ops 10 (example_cfg MARK 1) (OAHashTable (example_cfg MARK 1))
     [Insert ''b'' 5, Remove ''b'', Find ''b''] = [Inr None, Inr None, Inr (Some 5)] \<and>
   trace_ops 10 (example_cfg PACK 1) (OAHashTable (example_cfg PACK 1))
     [Insert ''b'' 5, Remove ''b'', Find ''b'']
       = [Inr None, Inr None, Inl (Throw E_ITEM_NOT_FOUND)]"
  by code_simp

text \<open>
  C10. The claim: with hash values in range, every slot index the probe loops of
  insertion, lookup and the duplicate guard form stays below the table size. The guard
  forms its first index as \<^verbatim>\<open>index + stride\<close> (line 371) and reads that slot before
  any wrap: with capacity 3 and a tombstone in the last slot, the insert of a key that
  hashes to slot 2 reads slot 3.
\<close>

theorem mark_guard_out_of_bounds:
  "PrimaryHashFunc (example_cfg MARK 1) ''ccccc'' 3 = 2 \<and>
   trace_ops 10 (example_cfg MARK 1) (OAHashTable (example_cfg MARK 1))
     [Insert ''bb'' 7, Remove ''bb'', Insert ''ccccc'' 9]
       = [Inr None, Inr None, Inl OutOfBounds]"
  by code_simp

section \<open>Rounding to double\<close>

text \<open>
  \<open>fl\<close> is monotone and idempotent (a double is read as it is), leaves a whole
  number below \<open>2 ^ 53\<close> as it is, and loses at most the fraction \<open>2 ^ - 53\<close> of a
  value from 1 on. So a quotient of two table sizes that exceeds 1 still exceeds 1 as
  a double, the smallest double above 1 is \<open>1 + 2 ^ - 52\<close>, and the rounded product
  of a positive whole number and a double above 1 exceeds that number.
\<close>

lemma round_he_cases: "round_he r = \<lfloor>r\<rfloor> \<or> round_he r = \<lfloor>r\<rfloor> + 1"
  by (simp add: round_he_def Let_def)

lemma round_he_of_int [simp]: "round_he (of_int n) = n"
  by (simp add: round_he_def)

lemma round_he_mono:
  assumes "r \<le> s"
  shows "round_he r \<le> round_he s"
proof (cases "\<lfloor>r\<rfloor> = \<lfloor>s\<rfloor>")
  case True
  from assms have "r - of_int \<lfloor>r\<rfloor> \<le> s - of_int \<lfloor>r\<rfloor>" by simp
  then show ?thesis unfolding round_he_def Let_def True [symmetric] by auto
next
  case False
  with assms have "\<lfloor>r\<rfloor> + 1 \<le> \<lfloor>s\<rfloor>" using floor_mono [OF assms] by linarith
  moreover have "round_he r \<le> \<lfloor>r\<rfloor> + 1" using round_he_cases [of r] by linarith
  moreover have "\<lfloor>s\<rfloor> \<le> round_he s" using round_he_cases [of s] by linarith
  ultimately show ?thesis by linarith
qed

lemma two_powi_mono: "a \<le> b \<Longrightarrow> (2::rat) powi a \<le> 2 powi b"
  by (rule power_int_increasing) simp_all

lemma two_powi_pos: "0 < (2::rat) powi a"
  by simp

lemma of_int_less_two_powi:
  assumes "0 < p"
  shows "(of_int p :: rat) < 2 powi bitlen p" and "(2::rat) powi (bitlen p - 1) \<le> of_int p"
proof -
  from bitlen_bounds [OF assms] have b: "2 ^ nat (bitlen p - 1) \<le> p" "p < 2 ^ nat (bitlen p)"
    by simp_all
  have ge1: "1 \<le> bitlen p" using assms bitlen_eq_zero_iff [of p] bitlen_nonneg [of p] by linarith
  from b(2) have "(of_int p :: rat) < of_int (2 ^ nat (bitlen p))" by (simp only: of_int_less_iff)
  then show "(of_int p :: rat) < 2 powi bitlen p"
    using bitlen_nonneg [of p] by (simp add: power_int_nonneg_exp)
  from b(1) have "(of_int (2 ^ nat (bitlen p - 1)) :: rat) \<le> of_int p" by (simp only: of_int_le_iff)
  then show "(2::rat) powi (bitlen p - 1) \<le> of_int p"
    using ge1 by (simp add: power_int_nonneg_exp)
qed

lemma dexp_bounds:
  assumes "0 < x"
  shows "x < 2 powi (dexp x + 53)"
    and "2 powi (dexp x + 52) \<le> x \<or> dexp x = - 1074"
    and "- 1074 \<le> dexp x"
proof -
  obtain p q where pq: "quotient_of x = (p, q)" by (cases "quotient_of x")
  then have q: "0 < q" and x: "x = of_int p / of_int q"
    by (simp_all add: quotient_of_denom_pos quotient_of_div)
  with assms have p: "0 < p" by (simp add: zero_less_divide_iff)
  define e where "e = bitlen p - bitlen q - 53"
  define e1 where "e1 = (if x < 2 powi (e + 53) then e else e + 1)"
  have d: "dexp x = max e1 (- 1074)" by (simp add: dexp_def pq e_def e1_def Let_def)
  have qpos: "(0::rat) < of_int q" using q by simp
  have up: "x < 2 powi (e + 54)"
  proof -
    have "x < 2 powi bitlen p / of_int q"
      unfolding x using of_int_less_two_powi(1) [OF p] qpos by (simp add: divide_strict_right_mono)
    also have "\<dots> \<le> 2 powi bitlen p / 2 powi (bitlen q - 1)"
      using of_int_less_two_powi(2) [OF q] qpos by (intro divide_left_mono) simp_all
    also have "\<dots> = 2 powi (e + 54)"
      by (simp add: e_def power_int_diff [symmetric] algebra_simps)
    finally show ?thesis .
  qed
  have lo: "2 powi (e + 52) \<le> x"
  proof -
    have "(2::rat) powi (e + 52) = 2 powi (bitlen p - 1) / 2 powi bitlen q"
      by (simp add: e_def power_int_diff [symmetric] algebra_simps)
    also have "\<dots> \<le> of_int p / 2 powi bitlen q"
      using of_int_less_two_powi(2) [OF p] by (intro divide_right_mono) simp_all
    also have "\<dots> \<le> of_int p / of_int q"
      using of_int_less_two_powi(1) [OF q] p qpos by (intro divide_left_mono) simp_all
    finally show ?thesis by (simp add: x)
  qed
  have e1: "2 powi (e1 + 52) \<le> x" "x < 2 powi (e1 + 53)"
    using up lo by (auto simp: e1_def algebra_simps)
  show "- 1074 \<le> dexp x" by (simp add: d)
  show "x < 2 powi (dexp x + 53)"
  proof -
    have "e1 + 53 \<le> dexp x + 53" by (simp add: d)
    then have "(2::rat) powi (e1 + 53) \<le> 2 powi (dexp x + 53)" by (rule two_powi_mono)
    with e1(2) show ?thesis by simp
  qed
  show "2 powi (dexp x + 52) \<le> x \<or> dexp x = - 1074"
    using e1(1) by (cases "- 1074 \<le> e1") (simp_all add: d max_def)
qed

lemma dexp_unique:
  assumes "0 < x" "2 powi (e + 52) \<le> x" "x < 2 powi (e + 53)" "- 1074 \<le> e"
  shows "dexp x = e"
proof (rule ccontr)
  assume ne: "dexp x \<noteq> e"
  note b = dexp_bounds [OF assms(1)]
  show False
  proof (cases "dexp x < e")
    case True
    then have "(2::rat) powi (dexp x + 53) \<le> 2 powi (e + 52)" by (intro two_powi_mono) simp
    with b(1) assms(2) show False by simp
  next
    case False
    with ne have gt: "e < dexp x" by simp
    with assms(4) b(2) have "2 powi (dexp x + 52) \<le> x" by auto
    moreover from gt have "(2::rat) powi (e + 53) \<le> 2 powi (dexp x + 52)"
      by (intro two_powi_mono) simp
    ultimately show False using assms(3) by simp
  qed
qed

lemma fl_pos: "0 < x \<Longrightarrow> fl x = of_int (round_he (x / 2 powi dexp x)) * 2 powi dexp x"
  by (simp add: fl_def)

lemma fl_0 [simp]: "fl 0 = 0"
  by (simp add: fl_def)

lemma round_he_0 [simp]: "round_he 0 = 0"
  using round_he_of_int [of 0] by simp

lemma round_he_nonneg: "0 \<le> r \<Longrightarrow> 0 \<le> round_he r"
  using round_he_mono [of 0 r] by simp

lemma fl_nonneg: "0 \<le> x \<Longrightarrow> 0 \<le> fl x"
  by (cases "x = 0") (simp_all add: fl_pos round_he_nonneg)

lemma fl_upper:
  assumes "0 < x"
  shows "fl x \<le> 2 powi (dexp x + 53)"
proof -
  let ?e = "dexp x"
  have "x / 2 powi ?e \<le> 2 powi (?e + 53) / 2 powi ?e"
    using dexp_bounds(1) [OF assms] by (intro divide_right_mono) simp_all
  also have "\<dots> = of_int (2 ^ 53)" by (simp add: power_int_add)
  finally have "round_he (x / 2 powi ?e) \<le> round_he (of_int (2 ^ 53))" by (rule round_he_mono)
  then have "round_he (x / 2 powi ?e) \<le> 2 ^ 53" by (simp only: round_he_of_int)
  then have "(of_int (round_he (x / 2 powi ?e)) :: rat) \<le> of_int (2 ^ 53)"
    by (simp only: of_int_le_iff)
  then have "(of_int (round_he (x / 2 powi ?e)) :: rat) * 2 powi ?e \<le> of_int (2 ^ 53) * 2 powi ?e"
    by (intro mult_right_mono) simp_all
  then show ?thesis by (simp add: fl_pos [OF assms] power_int_add mult.commute)
qed

lemma fl_lower:
  assumes "0 < x" "2 powi (dexp x + 52) \<le> x"
  shows "2 powi (dexp x + 52) \<le> fl x"
proof -
  let ?e = "dexp x"
  have "2 powi (?e + 52) / 2 powi ?e \<le> x / 2 powi ?e"
    using assms(2) by (intro divide_right_mono) simp_all
  moreover have "2 powi (?e + 52) / 2 powi ?e = (of_int (2 ^ 52) :: rat)"
    by (simp add: power_int_add)
  ultimately have "round_he (of_int (2 ^ 52)) \<le> round_he (x / 2 powi ?e)"
    by (intro round_he_mono) simp
  then have "2 ^ 52 \<le> round_he (x / 2 powi ?e)" by (simp only: round_he_of_int)
  then have "(of_int (2 ^ 52) :: rat) \<le> of_int (round_he (x / 2 powi ?e))"
    by (simp only: of_int_le_iff)
  then have "(of_int (2 ^ 52) :: rat) * 2 powi ?e \<le> of_int (round_he (x / 2 powi ?e)) * 2 powi ?e"
    by (intro mult_right_mono) simp_all
  then show ?thesis by (simp add: fl_pos [OF assms(1)] power_int_add mult.commute)
qed

lemma fl_mono:
  assumes "0 \<le> x" "x \<le> y"
  shows "fl x \<le> fl y"
proof (cases "x = 0")
  case True
  with assms show ?thesis by (simp add: fl_nonneg)
next
  case False
  with assms have x: "0 < x" and y: "0 < y" by simp_all
  note bx = dexp_bounds [OF x] and cy = dexp_bounds [OF y]
  have le: "dexp x \<le> dexp y"
  proof (rule ccontr)
    assume "\<not> dexp x \<le> dexp y"
    then have gt: "dexp y < dexp x" by simp
    with cy(3) bx(2) have "2 powi (dexp x + 52) \<le> x" by auto
    moreover from gt have "(2::rat) powi (dexp y + 53) \<le> 2 powi (dexp x + 52)"
      by (intro two_powi_mono) simp
    ultimately show False using cy(1) assms(2) by simp
  qed
  show ?thesis
  proof (cases "dexp x = dexp y")
    case True
    have "x / 2 powi dexp y \<le> y / 2 powi dexp y"
      using assms(2) by (intro divide_right_mono) simp_all
    then have "round_he (x / 2 powi dexp y) \<le> round_he (y / 2 powi dexp y)"
      by (rule round_he_mono)
    then have "(of_int (round_he (x / 2 powi dexp y)) :: rat)
                 \<le> of_int (round_he (y / 2 powi dexp y))" by (simp only: of_int_le_iff)
    then show ?thesis
      unfolding fl_pos [OF x] fl_pos [OF y] True by (intro mult_right_mono) simp_all
  next
    case False
    with le have lt: "dexp x < dexp y" by simp
    with bx(3) cy(2) have "2 powi (dexp y + 52) \<le> y" by auto
    then have "2 powi (dexp y + 52) \<le> fl y" by (rule fl_lower [OF y])
    moreover from lt have "(2::rat) powi (dexp x + 53) \<le> 2 powi (dexp y + 52)"
      by (intro two_powi_mono) simp
    ultimately show ?thesis using fl_upper [OF x] by simp
  qed
qed

lemma fl_fix:
  assumes "0 < x" "x / 2 powi dexp x = of_int k"
  shows "fl x = x"
proof -
  have "fl x = of_int k * 2 powi dexp x" by (simp add: fl_pos [OF assms(1)] assms(2))
  also have "\<dots> = x / 2 powi dexp x * 2 powi dexp x" by (simp only: assms(2))
  also have "\<dots> = x" by simp
  finally show ?thesis .
qed

lemma fl_uminus: "fl (- x) = - fl x"
  by (simp add: fl_def)

lemma fl_nonpos:
  assumes "x \<le> 0"
  shows "fl x \<le> 0"
proof -
  from assms have "0 \<le> fl (- x)" by (intro fl_nonneg) simp
  then show ?thesis by (simp add: fl_uminus)
qed

lemma fl_of_nat:
  assumes "n < 2 ^ 53"
  shows "fl (of_nat n) = of_nat n"
proof (cases "n = 0")
  case True
  then show ?thesis by simp
next
  case False
  let ?x = "of_nat n :: rat"
  from False have x: "0 < ?x" by simp
  note b = dexp_bounds [OF x]
  have le0: "dexp ?x \<le> 0"
  proof (rule ccontr)
    assume "\<not> dexp ?x \<le> 0"
    then have gt: "0 < dexp ?x" by simp
    with b(2) have "2 powi (dexp ?x + 52) \<le> ?x" by auto
    moreover from gt have "(2::rat) powi 53 \<le> 2 powi (dexp ?x + 52)"
      by (intro two_powi_mono) simp
    moreover from assms have "?x < of_nat (2 ^ 53)" by (simp only: of_nat_less_iff)
    ultimately show False by simp
  qed
  have "?x / 2 powi dexp ?x = ?x * 2 powi (- dexp ?x)"
    by (simp add: power_int_minus divide_inverse)
  also have "\<dots> = ?x * 2 ^ nat (- dexp ?x)"
    using le0 by (simp add: power_int_nonneg_exp)
  also have "\<dots> = of_int (int n * 2 ^ nat (- dexp ?x))" by simp
  finally show ?thesis by (rule fl_fix [OF x])
qed

lemma fl_1 [simp]: "fl 1 = 1"
  using fl_of_nat [of 1] by simp


lemma fl_le_nat:
  assumes "n < 2 ^ 53" "0 \<le> x" "x \<le> of_nat n"
  shows "fl x \<le> of_nat n"
proof -
  have "fl x \<le> fl (of_nat n)" using assms(2,3) by (rule fl_mono)
  with fl_of_nat [OF assms(1)] show ?thesis by simp
qed

lemma round_he_lower: "r - 1 / 2 \<le> of_int (round_he r)"
proof -
  have "r < of_int \<lfloor>r\<rfloor> + 1" by linarith
  moreover have "of_int \<lfloor>r\<rfloor> \<le> r" by simp
  ultimately show ?thesis
    by (auto simp: round_he_def Let_def)
qed

lemma fl_rel_lower:
  assumes "1 \<le> x"
  shows "x - x / (2 * 2 ^ 52) \<le> fl x"
proof -
  from assms have x0: "0 < x" by simp
  let ?u = "(2::rat) powi dexp x"
  have u0: "0 < ?u" by simp
  have lo: "2 powi (dexp x + 52) \<le> x"
  proof (cases "dexp x = - 1074")
    case True
    have "(2::rat) powi (- 1074 + 52) \<le> 2 powi 0" by (rule two_powi_mono) simp
    with True assms show ?thesis by simp
  next
    case False
    with dexp_bounds(2) [OF x0] show ?thesis by simp
  qed
  have "(2::rat) powi (dexp x + 52) = ?u * 2 ^ 52"
    by (simp add: power_int_add)
  with lo have ule: "?u * 2 ^ 52 \<le> x" by simp
  have "x / ?u - 1 / 2 \<le> of_int (round_he (x / ?u))" by (rule round_he_lower)
  then have "(x / ?u - 1 / 2) * ?u \<le> of_int (round_he (x / ?u)) * ?u"
    using u0 by (intro mult_right_mono) simp_all
  moreover have "(x / ?u - 1 / 2) * ?u = x - ?u / 2"
    using u0 by (simp add: algebra_simps)
  ultimately have a: "x - ?u / 2 \<le> fl x" by (simp add: fl_pos [OF x0])
  define P :: rat where "P = 2 ^ 52"
  have P0: "0 < P" by (simp add: P_def)
  from ule have "?u * P \<le> x" by (simp add: P_def)
  then have "?u \<le> x / P" using P0 by (simp add: pos_le_divide_eq)
  then have "?u / 2 \<le> x / P / 2" by (intro divide_right_mono) simp_all
  then have "?u / 2 \<le> x / (2 * P)" by simp
  with a have "x - x / (2 * P) \<le> fl x" by linarith
  then show ?thesis unfolding P_def .
qed

lemma fl_mult_gt:
  fixes m :: nat
  assumes m: "0 < m" and g: "1 + 1 / 2 ^ 52 \<le> gd"
  shows "of_nat m < fl (of_nat m * gd)"
proof -
  define P :: rat where "P = 2 ^ 52"
  have "(1::rat) < 2 ^ 52" by (rule one_less_power) simp_all
  then have P1: "1 < P" by (simp only: P_def)
  then have P0: "0 < P" by simp
  define x :: rat where "x = of_nat m"
  from m have x1: "1 \<le> x" unfolding x_def by (simp add: Suc_le_eq)
  define y where "y = x * gd"
  from g have g': "1 + 1 / P \<le> gd" by (simp only: P_def)
  have "x * (1 + 1 / P) \<le> y" unfolding y_def using g' x1 by (intro mult_left_mono) simp_all
  then have ylo: "x + x / P \<le> y" by (simp add: algebra_simps)
  with x1 P0 have y1: "1 \<le> y"
  proof -
    have "0 \<le> x / P" using x1 P0 by simp
    with ylo x1 show ?thesis by linarith
  qed
  from fl_rel_lower [OF y1] have "y - y / (2 * P) \<le> fl y" by (simp only: P_def)
  moreover have "x < y - y / (2 * P)"
  proof -
    have "y - y / (2 * P) = y * (1 - 1 / (2 * P))" by (simp add: algebra_simps)
    moreover have c: "0 < 1 - 1 / (2 * P)" using P1 by simp
    ultimately have "(x + x / P) * (1 - 1 / (2 * P)) \<le> y - y / (2 * P)"
      using ylo by (simp add: mult_right_mono)
    moreover have "(x + x / P) * (1 - 1 / (2 * P)) = x + x * ((P - 1) / (2 * P * P))"
      using P0 by (simp add: field_simps)
    moreover have "0 < x * ((P - 1) / (2 * P * P))" using x1 P1 by simp
    ultimately show ?thesis by linarith
  qed
  ultimately show ?thesis unfolding x_def y_def by linarith
qed

lemma fl_ratio_gt_one:
  fixes a m :: nat
  assumes "0 < m" "m < a" "m \<le> 2 ^ 32"
  shows "1 < fl (of_nat a / of_nat m)"
proof -
  let ?y = "1 + 1 / 2 ^ 32 :: rat"
  have fx: "fl ?y = ?y" by code_simp
  have m: "(0::rat) < of_nat m" using assms(1) by simp
  from assms(3) have "(of_nat m :: rat) \<le> of_nat (2 ^ 32)" by (simp only: of_nat_le_iff)
  then have "(of_nat m :: rat) \<le> 2 ^ 32" by simp
  then have "1 / 2 ^ 32 \<le> 1 / (of_nat m :: rat)" using m by (intro divide_left_mono) simp_all
  moreover from assms(2) have "(of_nat (Suc m) :: rat) \<le> of_nat a"
    by (simp only: of_nat_le_iff)
  then have "(of_nat m + 1) / of_nat m \<le> (of_nat a :: rat) / of_nat m"
    using m by (intro divide_right_mono) simp_all
  moreover have "(of_nat m + 1) / of_nat m = 1 + 1 / (of_nat m :: rat)"
    using m by (simp add: add_divide_distrib)
  ultimately have "?y \<le> of_nat a / of_nat m" by linarith
  then have "fl ?y \<le> fl (of_nat a / of_nat m)" by (intro fl_mono) simp_all
  then show ?thesis unfolding fx by simp
qed

lemma fl_gt_one_next:
  assumes "1 < fl g"
  shows "1 + 1 / 2 ^ 52 \<le> fl g"
proof (cases "1 + 1 / 2 ^ 52 \<le> g")
  case True
  have fx: "fl (1 + 1 / 2 ^ 52) = 1 + 1 / 2 ^ 52" by code_simp
  from True have "fl (1 + 1 / 2 ^ 52) \<le> fl g" by (intro fl_mono) simp_all
  then show ?thesis unfolding fx .
next
  case False
  then have lt: "g < 1 + 1 / 2 ^ 52" by simp
  have ge: "1 \<le> g"
  proof (rule ccontr)
    assume "\<not> 1 \<le> g"
    then have g1: "g \<le> 1" by simp
    have "fl g \<le> 1"
    proof (cases "0 \<le> g")
      case True
      then show ?thesis using g1 fl_le_nat [of 1 g] by simp
    next
      case False
      then show ?thesis using fl_nonpos [of g] by simp
    qed
    with assms show False by simp
  qed
  then have g0: "0 < g" by simp
  have "(1::rat) + 1 / 2 ^ 52 \<le> 2" by simp
  with lt have g2: "g < 2" by linarith
  have e: "dexp g = - 52"
    using g0 by (rule dexp_unique) (use ge g2 in simp_all)
  define P :: rat where "P = 2 ^ 52"
  have Ppos: "0 < P" by (simp add: P_def)
  have Pint: "P = of_int (2 ^ 52)" by (simp add: P_def)
  have pw: "(2::rat) powi (- 52) = 1 / P"
    unfolding P_def by (simp only: power_int_minus power_int_numeral inverse_eq_divide)
  define r where "r = round_he (g / 2 powi (- 52))"
  have f: "fl g = of_int r / P"
    unfolding fl_pos [OF g0] e r_def pw by simp
  with assms have "1 < (of_int r :: rat) / P" by simp
  with Ppos have "P < of_int r" by (simp add: pos_less_divide_eq)
  then have "2 ^ 52 < r" unfolding Pint by (simp only: of_int_less_iff)
  then have "2 ^ 52 + 1 \<le> r" by linarith
  then have "(of_int (2 ^ 52 + 1) :: rat) \<le> of_int r" by (simp only: of_int_le_iff)
  then have "P + 1 \<le> of_int r" unfolding Pint by (simp only: of_int_add of_int_1)
  then have "(P + 1) / P \<le> (of_int r :: rat) / P"
    using Ppos by (intro divide_right_mono) simp_all
  moreover have "(P + 1) / P = 1 + 1 / P" using Ppos by (simp add: add_divide_distrib)
  ultimately have "1 + 1 / P \<le> fl g" unfolding f by (simp only:)
  then show ?thesis unfolding P_def .
qed

lemma fl_fl: "fl (fl x) = fl x"
proof -
  have pos: "fl (fl x) = fl x" if x: "0 < x" for x :: rat
  proof -
    define e where "e = dexp x"
    define k where "k = round_he (x / 2 powi e)"
    have f: "fl x = of_int k * 2 powi e" unfolding k_def e_def using x by (rule fl_pos)
    have k0: "0 \<le> k" unfolding k_def using x by (intro round_he_nonneg) simp
    show ?thesis
    proof (cases "k = 0")
      case True
      with f show ?thesis by simp
    next
      case False
      with k0 have kp: "0 < k" by simp
      then have fp: "0 < fl x" unfolding f by simp
      have up: "fl x \<le> 2 powi (e + 53)" unfolding e_def using x by (rule fl_upper)
      have e74: "- 1074 \<le> e" unfolding e_def using x by (rule dexp_bounds(3))
      have ratio: "fl x / 2 powi e = of_int k" unfolding f by simp
      show ?thesis
      proof (cases "fl x = 2 powi (e + 53)")
        case True
        have "e + 1 + 52 = e + 53" by simp
        then have a1: "2 powi (e + 1 + 52) \<le> fl x" unfolding True by (simp only: order_refl)
        have "(2::rat) powi (e + 53) < 2 powi (e + 1 + 53)"
          by (rule power_int_strict_increasing) simp_all
        then have a2: "fl x < 2 powi (e + 1 + 53)" unfolding True .
        from e74 have a3: "- 1074 \<le> e + 1" by simp
        have "dexp (fl x) = e + 1"
          using fp a1 a2 a3 by (rule dexp_unique)
        moreover have "fl x / 2 powi (e + 1) = of_int (2 ^ 52)"
          unfolding True by (simp add: power_int_add)
        ultimately show ?thesis using fp by (intro fl_fix [of _ "2 ^ 52"]) simp_all
      next
        case False
        with up have lt: "fl x < 2 powi (e + 53)" by simp
        have "dexp (fl x) = e"
        proof (cases "2 powi (e + 52) \<le> fl x")
          case True
          with fp show ?thesis using lt e74 by (rule dexp_unique)
        next
          case small: False
          note b = dexp_bounds [OF fp]
          show ?thesis
          proof (cases "dexp (fl x) = - 1074")
            case True
            have "e = - 1074"
            proof (rule ccontr)
              assume "e \<noteq> - 1074"
              with dexp_bounds(2) [OF x] have "2 powi (e + 52) \<le> x" by (simp add: e_def)
              with x have "2 powi (e + 52) \<le> fl x" unfolding e_def by (intro fl_lower)
              with small show False by simp
            qed
            with True show ?thesis by simp
          next
            case False
            with b(2) have lo: "2 powi (dexp (fl x) + 52) \<le> fl x" by simp
            with small have "(2::rat) powi (dexp (fl x) + 52) < 2 powi (e + 52)" by simp
            then have "dexp (fl x) < e"
              by (metis add_le_cancel_right not_le two_powi_mono)
            moreover have "e = - 1074"
            proof (rule ccontr)
              assume "e \<noteq> - 1074"
              with dexp_bounds(2) [OF x] have "2 powi (e + 52) \<le> x" by (simp add: e_def)
              with x have "2 powi (e + 52) \<le> fl x" unfolding e_def by (intro fl_lower)
              with small show False by simp
            qed
            ultimately show ?thesis using b(3) by simp
          qed
        qed
        with ratio fp show ?thesis by (intro fl_fix [of _ k]) simp_all
      qed
    qed
  qed
  show ?thesis
  proof (cases "0 < x")
    case True
    then show ?thesis by (rule pos)
  next
    case False
    then have "0 \<le> - x" by simp
    show ?thesis
    proof (cases "x = 0")
      case True
      then show ?thesis by simp
    next
      case nz: False
      with False have "0 < - x" by simp
      from pos [OF this] show ?thesis by (simp add: fl_uminus)
    qed
  qed
qed

section \<open>The stored pairs\<close>

text \<open>\<open>entries\<close> are the key/value pairs of the occupied slots.\<close>

definition entries :: "'v OAHTSlot list \<Rightarrow> (string \<times> 'v) set" where
  "entries tb = {(Key s, Data s) | s. s \<in> set tb \<and> State s = OCCUPIED}"

lemma entries_iff:
  "(k, v) \<in> entries tb \<longleftrightarrow>
     (\<exists>j<length tb. State (tb ! j) = OCCUPIED \<and> Key (tb ! j) = k \<and> Data (tb ! j) = v)"
  by (auto simp: entries_def in_set_conv_nth)

lemma entries_insert:
  assumes "j < length tb" "State (tb ! j) \<noteq> OCCUPIED"
  shows "entries (tb[j := \<lparr>Key = key, Data = data, State = OCCUPIED\<rparr>])
           = insert (key, data) (entries tb)"
proof -
  let ?tb = "tb[j := \<lparr>Key = key, Data = data, State = OCCUPIED\<rparr>]"
  have "(k, v) \<in> entries ?tb \<longleftrightarrow> (k, v) \<in> insert (key, data) (entries tb)" for k v
  proof
    assume "(k, v) \<in> entries ?tb"
    then obtain i where i: "i < length tb" "State (?tb ! i) = OCCUPIED" "Key (?tb ! i) = k"
      "Data (?tb ! i) = v" by (auto simp: entries_iff)
    show "(k, v) \<in> insert (key, data) (entries tb)"
    proof (cases "i = j")
      case True
      with i show ?thesis by simp
    next
      case False
      with i have "State (tb ! i) = OCCUPIED \<and> Key (tb ! i) = k \<and> Data (tb ! i) = v" by simp
      with i(1) show ?thesis by (auto simp: entries_iff)
    qed
  next
    assume "(k, v) \<in> insert (key, data) (entries tb)"
    then consider "k = key" "v = data" | "(k, v) \<in> entries tb" by auto
    then show "(k, v) \<in> entries ?tb"
    proof cases
      case 1
      with assms(1) show ?thesis unfolding entries_iff by (intro exI [of _ j]) simp
    next
      case 2
      then obtain i where i: "i < length tb" "State (tb ! i) = OCCUPIED" "Key (tb ! i) = k"
        "Data (tb ! i) = v" by (auto simp: entries_iff)
      with assms(2) have "i \<noteq> j" by auto
      with i show ?thesis unfolding entries_iff by (intro exI [of _ i]) simp
    qed
  qed
  then show ?thesis by auto
qed

lemma entries_Nil: "entries [] = {}"
  by (simp add: entries_def)

lemma entries_Cons:
  "entries (s # ss) = (if State s = OCCUPIED then insert (Key s, Data s) (entries ss)
                       else entries ss)"
  by (auto simp: entries_def)

lemma entries_fresh: "entries (replicate p (fresh_slot cfg)) = {}"
  by (auto simp: entries_def fresh_slot_def)

text \<open>
  What an insertion that returns has done: it has written the pair into a slot of the
  array that was not occupied. And an insertion into an array without tombstones throws
  \<^verbatim>\<open>E_DUPLICATE\<close> only for a key an occupied slot holds.
\<close>

lemma InsertInTable_probe_Inr:
  "InsertInTable_probe fuel tb m key stride i probes = (Inr j, p)
     \<Longrightarrow> j < length tb \<and> State (tb ! j) \<noteq> OCCUPIED"
  by (induction fuel arbitrary: i probes) (auto split: if_splits)

lemma InsertInTable_Inr:
  assumes "InsertInTable fuel cfg tb m key data probes = (Inr tb', p)"
  shows "\<exists>j<length tb. State (tb ! j) \<noteq> OCCUPIED \<and>
           tb' = tb[j := \<lparr>Key = key, Data = data, State = OCCUPIED\<rparr>]"
proof -
  obtain r q where pr: "InsertInTable_probe fuel tb m key (probe_stride cfg key m)
      (PrimaryHashFunc cfg key m) probes = (r, q)" by (metis prod.collapse)
  show ?thesis
  proof (cases r)
    case (Inl e)
    with assms pr show ?thesis by (simp add: InsertInTable_def Let_def)
  next
    case (Inr j)
    with pr InsertInTable_probe_Inr have j: "j < length tb" "State (tb ! j) \<noteq> OCCUPIED"
      by blast+
    from assms pr Inr have "tb' = tb[j := \<lparr>Key = key, Data = data, State = OCCUPIED\<rparr>]"
      by (auto simp: InsertInTable_def Let_def split: prod.splits option.splits if_splits)
    with j show ?thesis by blast
  qed
qed

lemma InsertInTable_entries:
  assumes "InsertInTable fuel cfg tb m key data probes = (Inr tb', p)"
  shows "length tb' = length tb \<and> entries tb' = insert (key, data) (entries tb) \<and>
    ((\<forall>j<length tb. State (tb ! j) \<noteq> DELETED) \<longrightarrow> (\<forall>j<length tb'. State (tb' ! j) \<noteq> DELETED))"
proof -
  from InsertInTable_Inr [OF assms] obtain j where j: "j < length tb"
    "State (tb ! j) \<noteq> OCCUPIED" "tb' = tb[j := \<lparr>Key = key, Data = data, State = OCCUPIED\<rparr>]"
    by blast
  from j(1,2) have "entries tb' = insert (key, data) (entries tb)"
    unfolding j(3) by (rule entries_insert)
  with j show ?thesis by (simp add: nth_list_update)
qed

lemma InsertInTable_probe_dup:
  "InsertInTable_probe fuel tb m key stride i probes = (Inl (Throw E_DUPLICATE), p)
     \<Longrightarrow> key \<in> fst ` entries tb"
proof (induction fuel arbitrary: i probes)
  case 0
  then show ?case by simp
next
  case (Suc fuel)
  show ?case
  proof (cases "i < length tb \<and> State (tb ! i) = OCCUPIED \<and> Key (tb ! i) = key")
    case True
    then have "(key, Data (tb ! i)) \<in> entries tb" unfolding entries_iff by blast
    then have "fst (key, Data (tb ! i)) \<in> fst ` entries tb" by (rule imageI)
    then show ?thesis by simp
  next
    case False
    with Suc.prems Suc.IH show ?thesis by (auto split: if_splits)
  qed
qed

lemma InsertInTable_dup:
  assumes "InsertInTable fuel cfg tb m key data probes = (Inl (Throw E_DUPLICATE), p)"
    and "\<forall>j<length tb. State (tb ! j) \<noteq> DELETED"
  shows "key \<in> fst ` entries tb"
proof -
  obtain r q where pr: "InsertInTable_probe fuel tb m key (probe_stride cfg key m)
      (PrimaryHashFunc cfg key m) probes = (r, q)" by (metis prod.collapse)
  show ?thesis
  proof (cases r)
    case (Inl e)
    with assms(1) pr have "e = Throw E_DUPLICATE" by (simp add: InsertInTable_def Let_def)
    with pr Inl show ?thesis using InsertInTable_probe_dup by blast
  next
    case (Inr j)
    with pr InsertInTable_probe_Inr have "j < length tb" by blast
    with assms(2) have "State (tb ! j) \<noteq> DELETED" by simp
    with assms(1) pr Inr show ?thesis
      by (simp add: InsertInTable_def Let_def split: if_splits)
  qed
qed

lemma GrowTable_copy_entries:
  "GrowTable_copy fuel cfg old new p probes = (Inr new', q)
     \<Longrightarrow> length new' = length new \<and> entries new' = entries new \<union> entries old"
proof (induction old arbitrary: new probes)
  case Nil
  then show ?case by (simp add: entries_Nil)
next
  case (Cons s old)
  show ?case
  proof (cases "State s = OCCUPIED")
    case False
    with Cons show ?thesis by (simp add: entries_Cons)
  next
    case True
    obtain r q1 where ins: "InsertInTable fuel cfg new p (Key s) (Data s) probes = (r, q1)"
      by (metis prod.collapse)
    show ?thesis
    proof (cases r)
      case (Inl e)
      with Cons.prems True ins show ?thesis by simp
    next
      case (Inr new1)
      with ins InsertInTable_entries [of fuel cfg new p "Key s" "Data s" probes new1 q1]
      have 1: "length new1 = length new" "entries new1 = insert (Key s, Data s) (entries new)"
        by simp_all
      from Cons.prems True ins Inr
      have "GrowTable_copy fuel cfg old new1 p q1 = (Inr new', q)" by simp
      from Cons.IH [OF this] 1 True show ?thesis by (simp add: entries_Cons)
    qed
  qed
qed

lemma GrowTable_copy_dup:
  "GrowTable_copy fuel cfg old new p probes = (Inl (Throw E_DUPLICATE), q)
     \<Longrightarrow> \<forall>j<length new. State (new ! j) \<noteq> DELETED
     \<Longrightarrow> (\<exists>s \<in> set old. State s = OCCUPIED \<and> Key s \<in> fst ` entries new) \<or>
         \<not> distinct (map Key (filter (\<lambda>s. State s = OCCUPIED) old))"
proof (induction old arbitrary: new probes)
  case Nil
  then show ?case by simp
next
  case (Cons s old)
  let ?occ = "filter (\<lambda>s. State s = OCCUPIED)"
  show ?case
  proof (cases "State s = OCCUPIED")
    case False
    with Cons.prems have "GrowTable_copy fuel cfg old new p probes = (Inl (Throw E_DUPLICATE), q)"
      by simp
    from Cons.IH [OF this Cons.prems(2)] False show ?thesis by auto
  next
    case True
    obtain r q1 where ins: "InsertInTable fuel cfg new p (Key s) (Data s) probes = (r, q1)"
      by (metis prod.collapse)
    show ?thesis
    proof (cases r)
      case (Inl e)
      with Cons.prems(1) True ins have "e = Throw E_DUPLICATE" by simp
      with ins Inl have "InsertInTable fuel cfg new p (Key s) (Data s) probes
          = (Inl (Throw E_DUPLICATE), q1)" by simp
      from InsertInTable_dup [OF this Cons.prems(2)] have "Key s \<in> fst ` entries new" .
      with True have "\<exists>s' \<in> set (s # old). State s' = OCCUPIED \<and> Key s' \<in> fst ` entries new"
        by simp
      then show ?thesis ..
    next
      case (Inr new1)
      with ins have ins1: "InsertInTable fuel cfg new p (Key s) (Data s) probes = (Inr new1, q1)"
        by simp
      from InsertInTable_entries [OF ins1] Cons.prems(2)
      have 1: "entries new1 = insert (Key s, Data s) (entries new)"
        and 2: "\<forall>j<length new1. State (new1 ! j) \<noteq> DELETED" by blast+
      from Cons.prems(1) True ins1
      have "GrowTable_copy fuel cfg old new1 p q1 = (Inl (Throw E_DUPLICATE), q)" by simp
      from Cons.IH [OF this 2]
      have "(\<exists>s' \<in> set old. State s' = OCCUPIED \<and> Key s' \<in> fst ` entries new1) \<or>
         \<not> distinct (map Key (?occ old))" .
      then show ?thesis
      proof
        assume "\<exists>s' \<in> set old. State s' = OCCUPIED \<and> Key s' \<in> fst ` entries new1"
        then obtain s' where s': "s' \<in> set old" "State s' = OCCUPIED"
          "Key s' \<in> fst ` entries new1" by blast
        from s'(3) have or: "Key s' = Key s \<or> Key s' \<in> fst ` entries new"
          unfolding 1 by simp
        show ?thesis
        proof (cases "Key s' = Key s")
          case k: True
          from s'(1,2) have "s' \<in> set (?occ old)" by simp
          then have "Key s' \<in> Key ` set (?occ old)" by (rule imageI)
          with k have "Key s \<in> set (map Key (?occ old))" by simp
          with True have "\<not> distinct (map Key (?occ (s # old)))" by simp
          then show ?thesis ..
        next
          case k: False
          with or have "Key s' \<in> fst ` entries new" by simp
          with s'(1,2) have "\<exists>x \<in> set (s # old). State x = OCCUPIED \<and> Key x \<in> fst ` entries new"
            by auto
          then show ?thesis ..
        qed
      next
        assume "\<not> distinct (map Key (?occ old))"
        then have "\<not> distinct (map Key (?occ (s # old)))" by simp
        then show ?thesis ..
      qed
    qed
  qed
qed

section \<open>Growth and capacity\<close>

lemma GetClosestPrime_prime: "is_prime (GetClosestPrime n)"
  by (induction n rule: GetClosestPrime.induct) (simp add: GetClosestPrime.simps)

lemma GetClosestPrime_ge: "n \<le> GetClosestPrime n"
proof (induction n rule: GetClosestPrime.induct)
  case (1 n)
  show ?case
  proof (cases "is_prime n")
    case True
    then show ?thesis by (simp add: GetClosestPrime.simps)
  next
    case False
    with 1 have "Suc n \<le> GetClosestPrime (Suc n)" by simp
    moreover from False have "GetClosestPrime n = GetClosestPrime (Suc n)"
      by (simp add: GetClosestPrime.simps)
    ultimately show ?thesis by simp
  qed
qed

lemma grow_size_prime: "is_prime (grow_size cfg n)"
  by (simp add: grow_size_def GetClosestPrime_prime)

lemma less_2_32: "m \<le> 2 ^ 31 \<Longrightarrow> m < (2::nat) ^ 32"
proof -
  have "(2::nat) ^ 31 < 2 ^ 32" by (rule power_strict_increasing) simp_all
  then show "m \<le> 2 ^ 31 \<Longrightarrow> m < (2::nat) ^ 32" by (rule le_less_trans [rotated])
qed


lemma grow_target_le_size:
  assumes "0 \<le> grow_target cfg m"
  shows "grow_target cfg m \<le> int (grow_size cfg m)"
proof -
  have "nat (grow_target cfg m) \<le> grow_size cfg m"
    unfolding grow_size_def by (rule GetClosestPrime_ge)
  with assms show ?thesis by linarith
qed

lemma grow_target_nonneg:
  assumes "0 \<le> fl (GrowthFactor cfg)"
  shows "0 \<le> grow_target cfg m"
proof -
  have "0 \<le> fl (of_nat m * fl (GrowthFactor cfg))" using assms by (intro fl_nonneg) simp
  then have "(0::rat) \<le> of_int \<lceil>fl (of_nat m * fl (GrowthFactor cfg))\<rceil>"
    by (rule order_trans [OF _ le_of_int_ceiling])
  then show ?thesis unfolding grow_target_def by (simp only: of_int_0_le_iff)
qed

lemma grow_fitsI:
  assumes "0 \<le> fl (GrowthFactor cfg)" "grow_size cfg m < 2 ^ 32"
  shows "grow_fits cfg m"
proof -
  have 0: "0 \<le> grow_target cfg m" using assms(1) by (rule grow_target_nonneg)
  from grow_target_le_size [OF 0] assms(2)
  have "grow_target cfg m < int (2 ^ 32)" by linarith
  then have "grow_target cfg m < 2 ^ 32" by simp
  with 0 assms(2) show ?thesis by (simp only: grow_fits_def simp_thms)
qed



lemma grow_size_gt:
  assumes "1 < fl (GrowthFactor cfg)"
  shows "m < grow_size cfg m"
proof (cases "m = 0")
  case True
  have "is_prime (grow_size cfg m)" by (rule grow_size_prime)
  with True show ?thesis by (simp add: is_prime_iff)
next
  case False
  then have m: "0 < m" by simp
  from assms have g: "1 + 1 / 2 ^ 52 \<le> fl (GrowthFactor cfg)" by (rule fl_gt_one_next)
  have "(of_int (int m) :: rat) < fl (of_nat m * fl (GrowthFactor cfg))"
    using fl_mult_gt [OF m g] by simp
  then have "int m < grow_target cfg m" unfolding grow_target_def by (simp only: less_ceiling_iff)
  moreover from this have "0 \<le> grow_target cfg m" by linarith
  then have "grow_target cfg m \<le> int (grow_size cfg m)" by (rule grow_target_le_size)
  ultimately show ?thesis by linarith
qed

text \<open>The two ways \<^verbatim>\<open>GrowTable\<close> comes back.\<close>

lemma GrowTable_None:
  assumes "GrowTable fuel cfg t = (None, t1)"
  shows "grow_fits cfg (TableSize t)" and "TableSize t1 = grow_size cfg (TableSize t)"
    and "length (mTable t1) = grow_size cfg (TableSize t)"
    and "entries (mTable t1) = entries (mTable t)"
    and "Count t1 = Count t" and "Expansions t1 = Expansions t + 1"
proof -
  let ?p = "grow_size cfg (TableSize t)"
  from assms show fits: "grow_fits cfg (TableSize t)"
    by (simp add: GrowTable_def split: if_splits)
  obtain r q where cp: "GrowTable_copy fuel cfg (mTable t) (replicate ?p (fresh_slot cfg)) ?p
      (Probes t) = (r, q)" by (metis prod.collapse)
  with assms fits obtain new where r: "r = Inr new"
    and t1: "t1 = t\<lparr>mTable := new, TableSize := ?p, Probes := q,
                     Expansions := Expansions t + 1\<rparr>"
    by (cases r) (auto simp: GrowTable_def Let_def)
  from t1 show "TableSize t1 = ?p" "Count t1 = Count t" "Expansions t1 = Expansions t + 1"
    by simp_all
  from GrowTable_copy_entries [OF cp [unfolded r]] t1
  show "length (mTable t1) = ?p" "entries (mTable t1) = entries (mTable t)"
    by (simp_all add: entries_fresh)
qed

lemma GrowTable_Some:
  assumes "GrowTable fuel cfg t = (Some e, t1)"
  shows "mTable t1 = mTable t \<and> TableSize t1 = TableSize t \<and> Count t1 = Count t \<and>
    Expansions t1 = Expansions t"
  using assms
  by (auto simp: GrowTable_def Let_def split: if_splits prod.splits sum.splits)

lemma GrowTable_dup:
  assumes "GrowTable fuel cfg t = (Some (Throw E_DUPLICATE), t1)"
  shows "\<not> distinct (map Key (filter (\<lambda>s. State s = OCCUPIED) (mTable t)))"
proof -
  let ?p = "grow_size cfg (TableSize t)"
  obtain r q where cp: "GrowTable_copy fuel cfg (mTable t) (replicate ?p (fresh_slot cfg)) ?p
      (Probes t) = (r, q)" by (metis prod.collapse)
  with assms have "r = Inl (Throw E_DUPLICATE)"
    by (cases r) (auto simp: GrowTable_def Let_def split: if_splits)
  with cp have "GrowTable_copy fuel cfg (mTable t) (replicate ?p (fresh_slot cfg)) ?p
      (Probes t) = (Inl (Throw E_DUPLICATE), q)" by simp
  moreover have "\<forall>j<length (replicate ?p (fresh_slot cfg)).
      State (replicate ?p (fresh_slot cfg) ! j) \<noteq> DELETED"
    by (simp add: fresh_slot_def)
  ultimately have "(\<exists>s \<in> set (mTable t). State s = OCCUPIED \<and>
        Key s \<in> fst ` entries (replicate ?p (fresh_slot cfg))) \<or>
      \<not> distinct (map Key (filter (\<lambda>s. State s = OCCUPIED) (mTable t)))"
    by (rule GrowTable_copy_dup)
  then show ?thesis unfolding entries_fresh by simp
qed














text \<open>The table after \<open>insert("a", 7)\<close> into the empty example table.\<close>

definition one_key :: "nat OAHashTable" where
  "one_key =
     \<lparr>mTable = [\<lparr>Key = [], Data = 0, State = UNOCCUPIED\<rparr>,
                \<lparr>Key = ''a'', Data = 7, State = OCCUPIED\<rparr>,
                \<lparr>Key = [], Data = 0, State = UNOCCUPIED\<rparr>],
      Count = 1, TableSize = 3, Probes = 1, Expansions = 0, freed = []\<rparr>"

text \<open>
  The table after \<open>insert("aaa", 1)\<close>, \<open>insert("ccc", 3)\<close>, \<open>remove("aaa")\<close>,
  \<open>insert("ccc", 4)\<close> and \<open>insert("b", 2)\<close> with double hashing under PACK: the first
  \<open>"ccc"\<close> went to slot 2, past \<open>"aaa"\<close> in slot 0 with stride 2; the removal emptied
  slot 0 and, its neighbour slot 1 being empty, moved nothing; the second \<open>"ccc"\<close> found
  slot 0 empty.
\<close>

definition twice_stored :: "nat OAHashTable" where
  "twice_stored =
     \<lparr>mTable = [\<lparr>Key = ''ccc'', Data = 4, State = OCCUPIED\<rparr>,
                \<lparr>Key = ''b'', Data = 2, State = OCCUPIED\<rparr>,
                \<lparr>Key = ''ccc'', Data = 3, State = OCCUPIED\<rparr>],
      Count = 3, TableSize = 3, Probes = 6, Expansions = 0, freed = []\<rparr>"

text \<open>
  C6, as amended. The claim: an \<open>insert\<close> that raises \<open>Duplicate\<close> leaves count,
  capacity, expansion counter and every slot unchanged, and no growth takes place.
  \<^verbatim>\<open>insert\<close> evaluates the load-factor guard and calls \<^verbatim>\<open>GrowTable\<close> before
  \<^verbatim>\<open>InsertInTable\<close> looks for the key (lines 50-59). So: in every case the count is
  unchanged and the occupied slots hold the same key/value pairs as before the call.
  When the guard did not trip, every slot, the capacity and the expansion counter are
  unchanged as well. When the guard tripped and \<^verbatim>\<open>GrowTable\<close> returned, the table is the
  one \<^verbatim>\<open>GrowTable\<close> built: an array of the new capacity
  \<open>GetClosestPrime (ceil (capacity * GrowthFactor))\<close>, which is below \<open>2 ^ 32\<close>, and the
  expansion counter is incremented. When the guard tripped and the exception came out
  of \<^verbatim>\<open>GrowTable\<close> (thrown by a reinsertion into the new array), two occupied slots of
  the old array hold the same key, and every slot, the capacity and the expansion
  counter are unchanged.
\<close>

theorem insert_duplicate_state:
  assumes "insert_ht fuel cfg t key data = (Some (Throw E_DUPLICATE), t')"
  shows "Count t' = Count t \<and> entries (mTable t') = entries (mTable t) \<and>
    (if load_exceeds (Count t) (TableSize t) (MaxLoadFactor cfg) then
       (case GrowTable fuel cfg t of
          (None, t1) \<Rightarrow>
            mTable t' = mTable t1 \<and> length (mTable t') = TableSize t' \<and>
            TableSize t' = grow_size cfg (TableSize t) \<and> TableSize t' < 2 ^ 32 \<and>
            Expansions t' = Expansions t + 1
        | (Some e, t1) \<Rightarrow>
            \<not> distinct (map Key (filter (\<lambda>s. State s = OCCUPIED) (mTable t))) \<and>
            mTable t' = mTable t \<and> TableSize t' = TableSize t \<and>
            Expansions t' = Expansions t)
     else mTable t' = mTable t \<and> TableSize t' = TableSize t \<and> Expansions t' = Expansions t)"
proof (cases "load_exceeds (Count t) (TableSize t) (MaxLoadFactor cfg)")
  case False
  with assms show ?thesis
    by (auto simp: insert_ht_def split: prod.splits sum.splits)
next
  case True
  obtain r t1 where g: "GrowTable fuel cfg t = (r, t1)" by (metis prod.collapse)
  show ?thesis
  proof (cases r)
    case None
    note gn = GrowTable_None [OF g [unfolded None]]
    from assms True g None obtain p where t': "t' = t1\<lparr>Probes := p\<rparr>"
      by (auto simp: insert_ht_def split: prod.splits sum.splits)
    from gn(1) have "grow_size cfg (TableSize t) < 2 ^ 32" by (simp only: grow_fits_def)
    with True g None gn t' show ?thesis by simp
  next
    case (Some e)
    with assms True g have e: "e = Throw E_DUPLICATE" and t': "t' = t1"
      by (simp_all add: insert_ht_def)
    from GrowTable_dup [OF g [unfolded Some e]] GrowTable_Some [OF g [unfolded Some]]
      True g Some t'
    show ?thesis by simp
  qed
qed

theorem insert_duplicate_state_witness:
  "insert_ht 10 (example_cfg PACK 1) one_key ''a'' 8 = (Some (Throw E_DUPLICATE), one_key) \<and>
   \<not> load_exceeds (Count one_key) (TableSize one_key) (MaxLoadFactor (example_cfg PACK 1)) \<and>
   load_exceeds (Count one_key) (TableSize one_key) (MaxLoadFactor (example_cfg PACK (1 / 2))) \<and>
   fst (GrowTable 10 (example_cfg PACK (1 / 2)) one_key) = None \<and>
   fst (insert_ht 10 (example_cfg PACK (1 / 2)) one_key ''a'' 8) = Some (Throw E_DUPLICATE) \<and>
   Count (snd (insert_ht 10 (example_cfg PACK (1 / 2)) one_key ''a'' 8)) = Count one_key \<and>
   entries (mTable (snd (insert_ht 10 (example_cfg PACK (1 / 2)) one_key ''a'' 8)))
     = entries (mTable one_key) \<and>
   length (mTable (snd (insert_ht 10 (example_cfg PACK (1 / 2)) one_key ''a'' 8))) = 7 \<and>
   TableSize (snd (insert_ht 10 (example_cfg PACK (1 / 2)) one_key ''a'' 8)) = 7 \<and>
   Expansions (snd (insert_ht 10 (example_cfg PACK (1 / 2)) one_key ''a'' 8)) = 1 \<and>
   run_ops 10 (double_cfg 3 PACK 1) (OAHashTable (double_cfg 3 PACK 1))
     [Insert ''aaa'' 1, Insert ''ccc'' 3, Remove ''aaa'', Insert ''ccc'' 4, Insert ''b'' 2]
       = Some twice_stored \<and>
   load_exceeds (Count twice_stored) (TableSize twice_stored)
     (MaxLoadFactor (double_cfg 3 PACK 1)) \<and>
   fst (GrowTable 10 (double_cfg 3 PACK 1) twice_stored) = Some (Throw E_DUPLICATE) \<and>
   fst (insert_ht 10 (double_cfg 3 PACK 1) twice_stored ''zz'' 5) = Some (Throw E_DUPLICATE) \<and>
   \<not> distinct (map Key (filter (\<lambda>s. State s = OCCUPIED) (mTable twice_stored))) \<and>
   mTable (snd (insert_ht 10 (double_cfg 3 PACK 1) twice_stored ''zz'' 5))
     = mTable twice_stored \<and>
   TableSize (snd (insert_ht 10 (double_cfg 3 PACK 1) twice_stored ''zz'' 5)) = 3 \<and>
   Expansions (snd (insert_ht 10 (double_cfg 3 PACK 1) twice_stored ''zz'' 5)) = 0"
proof -
  let ?c1 = "example_cfg PACK 1" and ?c2 = "example_cfg PACK (1 / 2)"
  let ?c3 = "double_cfg 3 PACK 1"
  let ?t2 = "snd (insert_ht 10 ?c2 one_key ''a'' 8)"
  let ?t3 = "snd (insert_ht 10 ?c3 twice_stored ''zz'' 5)"
  have a: "insert_ht 10 ?c1 one_key ''a'' 8 = (Some (Throw E_DUPLICATE), one_key)"
    by code_simp
  have b: "\<not> load_exceeds (Count one_key) (TableSize one_key) (MaxLoadFactor ?c1)"
    by code_simp
  have c: "load_exceeds (Count one_key) (TableSize one_key) (MaxLoadFactor ?c2)"
    by code_simp
  have d: "fst (insert_ht 10 ?c2 one_key ''a'' 8) = Some (Throw E_DUPLICATE)"
    by code_simp
  then have d': "insert_ht 10 ?c2 one_key ''a'' 8 = (Some (Throw E_DUPLICATE), ?t2)"
    by (metis prod.collapse)
  have g: "fst (GrowTable 10 ?c2 one_key) = None" by code_simp
  then obtain t1 where g': "GrowTable 10 ?c2 one_key = (None, t1)" by (metis prod.collapse)
  have s: "grow_size ?c2 (TableSize one_key) = 7" by code_simp
  have e: "Expansions one_key + 1 = 1" by code_simp
  from insert_duplicate_state [OF d']
  have 21: "Count ?t2 = Count one_key \<and> entries (mTable ?t2) = entries (mTable one_key)"
    by blast
  from insert_duplicate_state [OF d', unfolded if_P [OF c] g' prod.case option.case]
  have "length (mTable ?t2) = TableSize ?t2 \<and>
    TableSize ?t2 = grow_size ?c2 (TableSize one_key) \<and>
    Expansions ?t2 = Expansions one_key + 1"
    by blast
  with s e have 22: "length (mTable ?t2) = 7 \<and> TableSize ?t2 = 7 \<and> Expansions ?t2 = 1"
    by simp
  note 2 = conjI [OF 21 22]
  have r: "run_ops 10 ?c3 (OAHashTable ?c3)
     [Insert ''aaa'' 1, Insert ''ccc'' 3, Remove ''aaa'', Insert ''ccc'' 4, Insert ''b'' 2]
       = Some twice_stored"
    by code_simp
  have l3: "load_exceeds (Count twice_stored) (TableSize twice_stored) (MaxLoadFactor ?c3)"
    by code_simp
  have g3: "fst (GrowTable 10 ?c3 twice_stored) = Some (Throw E_DUPLICATE)" by code_simp
  then obtain t4 where g3': "GrowTable 10 ?c3 twice_stored = (Some (Throw E_DUPLICATE), t4)"
    by (metis prod.collapse)
  have d3: "fst (insert_ht 10 ?c3 twice_stored ''zz'' 5) = Some (Throw E_DUPLICATE)"
    by code_simp
  then have d3': "insert_ht 10 ?c3 twice_stored ''zz'' 5 = (Some (Throw E_DUPLICATE), ?t3)"
    by (metis prod.collapse)
  have v: "TableSize twice_stored = 3" "Expansions twice_stored = 0"
    by (simp_all add: twice_stored_def)
  from insert_duplicate_state [OF d3', unfolded if_P [OF l3] g3' prod.case option.case]
  have "\<not> distinct (map Key (filter (\<lambda>s. State s = OCCUPIED) (mTable twice_stored))) \<and>
    mTable ?t3 = mTable twice_stored \<and> TableSize ?t3 = TableSize twice_stored \<and>
    Expansions ?t3 = Expansions twice_stored"
    by blast
  then have 3: "\<not> distinct (map Key (filter (\<lambda>s. State s = OCCUPIED) (mTable twice_stored))) \<and>
    mTable ?t3 = mTable twice_stored \<and> TableSize ?t3 = 3 \<and> Expansions ?t3 = 0"
    unfolding v .
  from a b c g d 2 r l3 g3 d3 3 show ?thesis by blast
qed

text \<open>
  The claim of C6 as stated fails: capacity 3, maximum load factor 1/2, one key. The
  second insert of that key trips the guard (2/3 > 1/2), grows the table to 7 slots and
  then throws \<^verbatim>\<open>E_DUPLICATE\<close>.
\<close>

theorem insert_duplicate_after_growth:
  "run_ops 10 (example_cfg PACK (1 / 2)) (OAHashTable (example_cfg PACK (1 / 2)))
     [Insert ''a'' 7] = Some one_key \<and>
   fst (insert_ht 10 (example_cfg PACK (1 / 2)) one_key ''a'' 8) = Some (Throw E_DUPLICATE) \<and>
   TableSize one_key = 3 \<and> Expansions one_key = 0 \<and>
   TableSize (snd (insert_ht 10 (example_cfg PACK (1 / 2)) one_key ''a'' 8)) = 7 \<and>
   Expansions (snd (insert_ht 10 (example_cfg PACK (1 / 2)) one_key ''a'' 8)) = 1 \<and>
   length (mTable (snd (insert_ht 10 (example_cfg PACK (1 / 2)) one_key ''a'' 8))) = 7"
  by code_simp




section \<open>Sequences of inserts\<close>

text \<open>
  The contract of the caller's hash functions (OAHashTable.h, line 18): a hash function
  called with table size \<open>m\<close> returns an index below \<open>m\<close>. The secondary one is
  called with \<open>tableSize - 1\<close>, so the stride lies in \<open>[1, tableSize - 1]\<close>.
\<close>

definition hash_in_range :: "'v OAHTConfig \<Rightarrow> bool" where
  "hash_in_range cfg \<longleftrightarrow>
     (\<forall>key m. 0 < m \<longrightarrow> PrimaryHashFunc cfg key m < m) \<and>
     (\<forall>h key m. SecondaryHashFunc cfg = Some h \<longrightarrow> 0 < m \<longrightarrow> h key m < m)"

text \<open>The \<open>n\<close>-th slot of the probe sequence of a key (spec 4.1).\<close>

definition probe_pos :: "'v OAHTConfig \<Rightarrow> nat \<Rightarrow> string \<Rightarrow> nat \<Rightarrow> nat" where
  "probe_pos cfg m key n = (PrimaryHashFunc cfg key m + n * probe_stride cfg key m) mod m"

text \<open>
  A table size on which probing works: no unsigned wrap-around, start and stride in
  range, and a stride coprime to the size, so that the sequence visits every slot.
\<close>

definition good_size :: "'v OAHTConfig \<Rightarrow> nat \<Rightarrow> bool" where
  "good_size cfg m \<longleftrightarrow>
     0 < m \<and> m \<le> 2 ^ 31 \<and>
     (\<forall>key. PrimaryHashFunc cfg key m < m \<and> probe_stride cfg key m \<le> m \<and>
            coprime (probe_stride cfg key m) m)"

lemma prime_coprime:
  assumes "is_prime p" "0 < s" "s < p"
  shows "coprime s p"
proof (rule coprimeI)
  fix c assume c: "c dvd s" "c dvd p"
  from c(1) assms(2) have "c \<le> s" by (simp add: dvd_imp_le)
  with assms(3) have lt: "c < p" by simp
  from c(1) assms(2) have "c \<noteq> 0" by auto
  show "is_unit c"
  proof (rule ccontr)
    assume "\<not> is_unit c"
    with \<open>c \<noteq> 0\<close> have "2 \<le> c" by (cases c) (auto simp: Suc_le_eq)
    with lt c(2) assms(1) show False by (auto simp: is_prime_iff)
  qed
qed

lemma good_size_prime:
  assumes "hash_in_range cfg" "is_prime m" "m \<le> 2 ^ 31"
  shows "good_size cfg m"
proof -
  from assms(2) have m2: "2 \<le> m" by (simp add: is_prime_iff)
  have m32: "m < 2 ^ 32" using assms(3) by (rule less_2_32)
  have "probe_stride cfg key m \<le> m \<and> coprime (probe_stride cfg key m) m" for key
  proof (cases "SecondaryHashFunc cfg")
    case None
    then show ?thesis using m2 by (simp add: probe_stride_def)
  next
    case (Some h)
    have u: "usub m 1 = m - 1" using m2 m32 by (intro usub_small) simp_all
    from assms(1) Some m2 have r: "h key (m - 1) < m - 1"
      by (simp add: hash_in_range_def)
    then have "h key (m - 1) + 1 < 2 ^ 32" using m32 by linarith
    then have "uadd (h key (m - 1)) 1 = h key (m - 1) + 1" by (rule uadd_small)
    with Some u have s: "probe_stride cfg key m = h key (m - 1) + 1"
      by (simp add: probe_stride_def)
    with r have "0 < probe_stride cfg key m" "probe_stride cfg key m < m" by simp_all
    with prime_coprime [OF assms(2)] show ?thesis by simp
  qed
  moreover from assms(1) m2 have "PrimaryHashFunc cfg key m < m" for key
    by (simp add: hash_in_range_def)
  ultimately show ?thesis using m2 assms(3) by (simp add: good_size_def)
qed

lemma good_size_linear:
  assumes "hash_in_range cfg" "SecondaryHashFunc cfg = None" "0 < m" "m \<le> 2 ^ 31"
  shows "good_size cfg m"
  using assms by (simp add: good_size_def hash_in_range_def probe_stride_def Suc_le_eq)

lemma probe_pos_less: "0 < m \<Longrightarrow> probe_pos cfg m key n < m"
  by (simp add: probe_pos_def)

lemma probe_pos_0: "good_size cfg m \<Longrightarrow> probe_pos cfg m key 0 = PrimaryHashFunc cfg key m"
  by (simp add: probe_pos_def good_size_def)

lemma probe_pos_Suc:
  assumes "good_size cfg m"
  shows "probe_step m (probe_stride cfg key m) (probe_pos cfg m key n) = probe_pos cfg m key (Suc n)"
proof -
  from assms have m: "0 < m" "m \<le> 2 ^ 31" and s: "probe_stride cfg key m \<le> m"
    by (simp_all add: good_size_def)
  have "probe_step m (probe_stride cfg key m) (probe_pos cfg m key n)
          = (probe_pos cfg m key n + probe_stride cfg key m) mod m"
    using m probe_pos_less [OF m(1)] s by (rule probe_step_mod)
  also have "\<dots> = (PrimaryHashFunc cfg key m + n * probe_stride cfg key m
                       + probe_stride cfg key m) mod m"
    unfolding probe_pos_def by (rule mod_add_left_eq)
  also have "\<dots> = probe_pos cfg m key (Suc n)"
    by (simp add: probe_pos_def ac_simps)
  finally show ?thesis .
qed

lemma probe_pos_inj:
  assumes "good_size cfg m" "i < m" "j < m" "probe_pos cfg m key i = probe_pos cfg m key j"
  shows "i = j"
proof -
  let ?h = "PrimaryHashFunc cfg key m" and ?s = "probe_stride cfg key m"
  from assms(1) have cop: "coprime ?s m" by (simp add: good_size_def)
  have aux: "a = b" if "a \<le> b" "b < m" "probe_pos cfg m key a = probe_pos cfg m key b" for a b
  proof -
    from that(1) have le: "?h + a * ?s \<le> ?h + b * ?s" by simp
    from that(3) have "(?h + b * ?s) mod m = (?h + a * ?s) mod m" by (simp add: probe_pos_def)
    with le have "m dvd (?h + b * ?s) - (?h + a * ?s)" by (simp add: mod_eq_dvd_iff_nat)
    then have "m dvd (b - a) * ?s" by (simp add: diff_mult_distrib)
    with cop have "m dvd b - a" by (simp add: coprime_dvd_mult_left_iff coprime_commute)
    moreover have "b - a < m" using that(2) by simp
    ultimately have "b - a = 0" by (meson dvd_imp_le not_less zero_less_iff_neq_zero)
    with that(1) show ?thesis by simp
  qed
  show ?thesis
  proof (cases "i \<le> j")
    case True
    with aux assms show ?thesis by blast
  next
    case False
    then have "j \<le> i" by simp
    with aux [of j i] assms show ?thesis by simp
  qed
qed

lemma probe_pos_covers:
  assumes "good_size cfg m" "j < m"
  shows "\<exists>n<m. probe_pos cfg m key n = j"
proof -
  from assms(1) have m0: "0 < m" by (simp add: good_size_def)
  have inj: "inj_on (probe_pos cfg m key) {..<m}"
    by (rule inj_onI) (use probe_pos_inj [OF assms(1)] in auto)
  have sub: "probe_pos cfg m key ` {..<m} \<subseteq> {..<m}"
    using probe_pos_less [OF m0] by auto
  have "card (probe_pos cfg m key ` {..<m}) = card {..<m}"
    using inj by (rule card_image)
  with sub have "probe_pos cfg m key ` {..<m} = {..<m}"
    by (intro card_subset_eq) simp_all
  with assms(2) have "j \<in> probe_pos cfg m key ` {..<m}" by simp
  then show ?thesis by auto
qed

text \<open>
  The invariant of a table without tombstones: every occupied slot holds a key that
  fits, lies on the probe sequence of its key with only occupied slots before it, and
  no two occupied slots hold the same key.
\<close>

definition wf_table :: "'v OAHTConfig \<Rightarrow> 'v OAHTSlot list \<Rightarrow> bool" where
  "wf_table cfg tb \<longleftrightarrow>
     (\<forall>j<length tb. State (tb ! j) \<noteq> DELETED) \<and>
     (\<forall>j<length tb. State (tb ! j) = OCCUPIED \<longrightarrow>
        length (Key (tb ! j)) < MAX_KEYLEN \<and>
        (\<exists>n<length tb. probe_pos cfg (length tb) (Key (tb ! j)) n = j \<and>
           (\<forall>n'<n. State (tb ! probe_pos cfg (length tb) (Key (tb ! j)) n') = OCCUPIED))) \<and>
     (\<forall>i<length tb. \<forall>j<length tb.
        State (tb ! i) = OCCUPIED \<and> State (tb ! j) = OCCUPIED \<and> Key (tb ! i) = Key (tb ! j)
          \<longrightarrow> i = j)"

lemma InsertInTable_probe_finds:
  assumes gs: "good_size cfg m" and len: "length tb = m"
    and free: "State (tb ! probe_pos cfg m key n0) \<noteq> OCCUPIED"
    and occ: "\<forall>n'<n0. State (tb ! probe_pos cfg m key n') = OCCUPIED \<and>
                      Key (tb ! probe_pos cfg m key n') \<noteq> key"
  shows "n \<le> n0 \<Longrightarrow> n0 - n < fuel \<Longrightarrow>
    fst (InsertInTable_probe fuel tb m key (probe_stride cfg key m) (probe_pos cfg m key n) probes)
      = Inr (probe_pos cfg m key n0)"
proof (induction fuel arbitrary: n probes)
  case 0
  then show ?case by simp
next
  case (Suc fuel)
  from gs have m0: "0 < m" by (simp add: good_size_def)
  have lt: "probe_pos cfg m key n < length tb" using probe_pos_less [OF m0] len by simp
  show ?case
  proof (cases "n = n0")
    case True
    with free lt show ?thesis by simp
  next
    case False
    with Suc.prems have n: "n < n0" "Suc n \<le> n0" "n0 - Suc n < fuel" by simp_all
    from occ n(1) have "State (tb ! probe_pos cfg m key n) = OCCUPIED"
      "Key (tb ! probe_pos cfg m key n) \<noteq> key" by simp_all
    with lt Suc.IH [OF n(2,3)] show ?thesis
      by (simp add: probe_pos_Suc [OF gs])
  qed
qed

lemma wf_table_insert:
  assumes wf: "wf_table cfg tb" and m: "0 < length tb"
    and j: "j = probe_pos cfg (length tb) key n0" and n0: "n0 < length tb"
    and occ: "\<forall>n'<n0. State (tb ! probe_pos cfg (length tb) key n') = OCCUPIED"
    and absent: "\<forall>i<length tb. State (tb ! i) = OCCUPIED \<longrightarrow> Key (tb ! i) \<noteq> key"
    and short: "length key < MAX_KEYLEN"
  shows "wf_table cfg (tb[j := \<lparr>Key = key, Data = data, State = OCCUPIED\<rparr>])"
proof -
  let ?new = "\<lparr>Key = key, Data = data, State = OCCUPIED\<rparr>"
  let ?tb = "tb[j := ?new]"
  let ?m = "length tb"
  have jm: "j < ?m" unfolding j using m by (rule probe_pos_less)
  have nth: "?tb ! i = (if i = j then ?new else tb ! i)" if "i < ?m" for i
    using that by (simp add: nth_list_update)
  have keep: "State (?tb ! i) = OCCUPIED" if "State (tb ! i) = OCCUPIED" "i < ?m" for i
    using that by (simp add: nth)
  have pl: "probe_pos cfg ?m k n < ?m" for k n using m by (rule probe_pos_less)
  have 1: "\<forall>i<length ?tb. State (?tb ! i) \<noteq> DELETED"
    using wf by (simp add: wf_table_def nth)
  have 2: "length (Key (?tb ! i)) < MAX_KEYLEN \<and>
        (\<exists>n<length ?tb. probe_pos cfg (length ?tb) (Key (?tb ! i)) n = i \<and>
           (\<forall>n'<n. State (?tb ! probe_pos cfg (length ?tb) (Key (?tb ! i)) n') = OCCUPIED))"
    if i: "i < length ?tb" "State (?tb ! i) = OCCUPIED" for i
  proof (cases "i = j")
    case True
    have "\<forall>n'<n0. State (?tb ! probe_pos cfg ?m key n') = OCCUPIED"
      using occ keep pl by blast
    with True jm short j n0 show ?thesis by (auto simp: nth)
  next
    case False
    with i have old: "i < ?m" "State (tb ! i) = OCCUPIED" "?tb ! i = tb ! i"
      by (simp_all add: nth)
    with wf obtain n where n: "length (Key (tb ! i)) < MAX_KEYLEN" "n < ?m"
      "probe_pos cfg ?m (Key (tb ! i)) n = i"
      "\<forall>n'<n. State (tb ! probe_pos cfg ?m (Key (tb ! i)) n') = OCCUPIED"
      unfolding wf_table_def by blast
    from n(4) have "\<forall>n'<n. State (?tb ! probe_pos cfg ?m (Key (tb ! i)) n') = OCCUPIED"
      using keep pl by blast
    with n(1,2,3) old(3) show ?thesis by auto
  qed
  have 3: "a = b" if "a < length ?tb" "b < length ?tb" "State (?tb ! a) = OCCUPIED"
    "State (?tb ! b) = OCCUPIED" "Key (?tb ! a) = Key (?tb ! b)" for a b
  proof -
    from wf have d: "\<And>x y. x < ?m \<Longrightarrow> y < ?m \<Longrightarrow> State (tb ! x) = OCCUPIED \<Longrightarrow>
      State (tb ! y) = OCCUPIED \<Longrightarrow> Key (tb ! x) = Key (tb ! y) \<Longrightarrow> x = y"
      unfolding wf_table_def by blast
    show ?thesis
    proof (cases "a = j")
      case True
      show ?thesis
      proof (rule ccontr)
        assume "a \<noteq> b"
        with True that have "State (tb ! b) = OCCUPIED" "Key (tb ! b) = key" "b < ?m"
          by (simp_all add: nth)
        with absent show False by blast
      qed
    next
      case False
      show ?thesis
      proof (cases "b = j")
        case True
        with False that have "State (tb ! a) = OCCUPIED" "Key (tb ! a) = key" "a < ?m"
          by (simp_all add: nth)
        with absent show ?thesis by blast
      next
        case bj: False
        with False that d [of a b] show ?thesis by (simp add: nth)
      qed
    qed
  qed
  from 1 2 3 show ?thesis unfolding wf_table_def by blast
qed

lemma occupied_card: "occupied tb = card {i. i < length tb \<and> State (tb ! i) = OCCUPIED}"
  by (simp add: occupied_def length_filter_conv_card)

lemma occupied_le: "occupied tb \<le> length tb"
  by (simp add: occupied_def)

lemma occupied_insert:
  assumes "j < length tb" "State (tb ! j) \<noteq> OCCUPIED"
  shows "occupied (tb[j := \<lparr>Key = key, Data = data, State = OCCUPIED\<rparr>]) = Suc (occupied tb)"
proof -
  let ?tb = "tb[j := \<lparr>Key = key, Data = data, State = OCCUPIED\<rparr>]"
  have "{i. i < length ?tb \<and> State (?tb ! i) = OCCUPIED}
          = insert j {i. i < length tb \<and> State (tb ! i) = OCCUPIED}"
    using assms(1) by (auto simp: nth_list_update)
  moreover have "j \<notin> {i. i < length tb \<and> State (tb ! i) = OCCUPIED}" using assms(2) by simp
  moreover have "finite {i. i < length tb \<and> State (tb ! i) = OCCUPIED}" by simp
  ultimately show ?thesis by (simp add: occupied_card)
qed

lemma room_exists:
  assumes "occupied tb < length tb"
  shows "\<exists>j<length tb. State (tb ! j) \<noteq> OCCUPIED"
proof (rule ccontr)
  assume "\<not> ?thesis"
  then have "{i. i < length tb \<and> State (tb ! i) = OCCUPIED} = {..<length tb}" by auto
  then have "occupied tb = length tb" by (simp add: occupied_card)
  with assms show False by simp
qed

lemma InsertInTable_ok:
  assumes gs: "good_size cfg (length tb)" and wf: "wf_table cfg tb"
    and absent: "key \<notin> fst ` entries tb"
    and room: "occupied tb < length tb"
    and short: "length key < MAX_KEYLEN"
    and fuel: "length tb \<le> fuel"
  shows "\<exists>tb' p. InsertInTable fuel cfg tb (length tb) key data probes = (Inr tb', p) \<and>
           length tb' = length tb \<and> wf_table cfg tb' \<and>
           entries tb' = insert (key, data) (entries tb) \<and>
           occupied tb' = Suc (occupied tb)"
proof -
  let ?m = "length tb"
  let ?pos = "probe_pos cfg ?m key"
  from gs have m0: "0 < ?m" by (simp add: good_size_def)
  have abs: "\<forall>i<?m. State (tb ! i) = OCCUPIED \<longrightarrow> Key (tb ! i) \<noteq> key"
  proof (intro allI impI notI)
    fix i assume "i < ?m" "State (tb ! i) = OCCUPIED" "Key (tb ! i) = key"
    then have "(key, Data (tb ! i)) \<in> entries tb" unfolding entries_iff by blast
    with absent show False by force
  qed
  from room_exists [OF room] obtain j1 where j1: "j1 < ?m" "State (tb ! j1) \<noteq> OCCUPIED"
    by blast
  from probe_pos_covers [OF gs j1(1)] obtain n1 where n1: "n1 < ?m" "?pos n1 = j1" by blast
  define n0 where "n0 = (LEAST n. State (tb ! ?pos n) \<noteq> OCCUPIED)"
  have ex: "State (tb ! ?pos n1) \<noteq> OCCUPIED" using j1 n1 by simp
  have free: "State (tb ! ?pos n0) \<noteq> OCCUPIED"
    unfolding n0_def using ex by (rule LeastI)
  have "n0 \<le> n1" unfolding n0_def using ex by (rule Least_le)
  with n1 have n0m: "n0 < ?m" by simp
  have before: "State (tb ! ?pos n') = OCCUPIED" if "n' < n0" for n'
    using not_less_Least [of n' "\<lambda>n. State (tb ! ?pos n) \<noteq> OCCUPIED"] that
    unfolding n0_def by blast
  have pl: "?pos n < ?m" for n using m0 by (rule probe_pos_less)
  have occ: "\<forall>n'<n0. State (tb ! ?pos n') = OCCUPIED \<and> Key (tb ! ?pos n') \<noteq> key"
    using before abs pl by blast
  have "fst (InsertInTable_probe fuel tb ?m key (probe_stride cfg key ?m) (?pos 0) probes)
          = Inr (?pos n0)"
    using gs refl free occ by (rule InsertInTable_probe_finds) (use n0m fuel in simp_all)
  then obtain p where probe:
    "InsertInTable_probe fuel tb ?m key (probe_stride cfg key ?m)
       (PrimaryHashFunc cfg key ?m) probes = (Inr (?pos n0), p)"
    unfolding probe_pos_0 [OF gs] by (metis prod.collapse)
  from wf pl have nd: "State (tb ! ?pos n0) \<noteq> DELETED" unfolding wf_table_def by blast
  let ?tb = "tb[?pos n0 := \<lparr>Key = key, Data = data, State = OCCUPIED\<rparr>]"
  have res: "InsertInTable fuel cfg tb ?m key data probes = (Inr ?tb, p + 1)"
    using nd short by (simp add: InsertInTable_def Let_def probe)
  have "wf_table cfg ?tb"
    using wf m0 refl n0m _ abs short by (rule wf_table_insert) (use before in blast)
  with res entries_insert [OF pl free] occupied_insert [OF pl free] show ?thesis by simp
qed

lemma IndexOf_walk_finds:
  assumes gs: "good_size cfg m" and len: "length tb = m" and n: "n < m"
    and hit: "State (tb ! probe_pos cfg m key n) = OCCUPIED" "Key (tb ! probe_pos cfg m key n) = key"
    and before: "\<forall>n'<n. State (tb ! probe_pos cfg m key n') = OCCUPIED \<and>
                        Key (tb ! probe_pos cfg m key n') \<noteq> key"
  shows "i \<le> n \<Longrightarrow> n - i < fuel \<Longrightarrow>
    fst (IndexOf_walk fuel tb m key (probe_stride cfg key m) (probe_pos cfg m key 0)
           (probe_pos cfg m key i) probes) = Inr (Some (probe_pos cfg m key n))"
proof (induction fuel arbitrary: i probes)
  case 0
  then show ?case by simp
next
  case (Suc fuel)
  from gs have m0: "0 < m" by (simp add: good_size_def)
  have lt: "\<not> length tb \<le> probe_pos cfg m key x" for x
    using probe_pos_less [OF m0, of cfg key x] len by simp
  show ?case
  proof (cases "i = n")
    case True
    with hit show ?thesis by (simp add: lt)
  next
    case False
    with Suc.prems have i: "i < n" "Suc i \<le> n" "n - Suc i < fuel" by simp_all
    from before i(1) have cur: "State (tb ! probe_pos cfg m key i) = OCCUPIED"
      "Key (tb ! probe_pos cfg m key i) \<noteq> key" by simp_all
    have "probe_pos cfg m key (Suc i) \<noteq> probe_pos cfg m key 0"
    proof
      assume "probe_pos cfg m key (Suc i) = probe_pos cfg m key 0"
      with probe_pos_inj [OF gs, of "Suc i" 0 key] i(2) n m0 show False by simp
    qed
    with cur Suc.IH [OF i(2,3)] show ?thesis
      by (simp add: probe_pos_Suc [OF gs] Let_def lt)
  qed
qed

lemma find_ht_ok:
  assumes gs: "good_size cfg (TableSize t)" and len: "length (mTable t) = TableSize t"
    and wf: "wf_table cfg (mTable t)" and mem: "(k, v) \<in> entries (mTable t)"
    and fuel: "TableSize t \<le> fuel"
  shows "fst (find_ht fuel cfg t k) = Inr v"
proof -
  let ?tb = "mTable t" and ?m = "TableSize t"
  let ?pos = "probe_pos cfg ?m k"
  from gs have m0: "0 < ?m" by (simp add: good_size_def)
  from mem obtain j where j: "j < ?m" "State (?tb ! j) = OCCUPIED" "Key (?tb ! j) = k"
    "Data (?tb ! j) = v" unfolding entries_iff len by blast
  with wf obtain n where n: "n < ?m" "?pos n = j"
    "\<forall>n'<n. State (?tb ! ?pos n') = OCCUPIED"
    unfolding wf_table_def len by blast
  have pl: "?pos x < ?m" for x using m0 by (rule probe_pos_less)
  have before: "\<forall>n'<n. State (?tb ! ?pos n') = OCCUPIED \<and> Key (?tb ! ?pos n') \<noteq> k"
  proof (intro allI impI conjI)
    fix n' assume n': "n' < n"
    with n(3) show occ: "State (?tb ! ?pos n') = OCCUPIED" by simp
    show "Key (?tb ! ?pos n') \<noteq> k"
    proof
      assume "Key (?tb ! ?pos n') = k"
      with wf occ j pl [of n'] have "?pos n' = j" unfolding wf_table_def len by blast
      with n(2) probe_pos_inj [OF gs, of n' n k] n' n(1) show False by simp
    qed
  qed
  have "fst (IndexOf_walk fuel ?tb ?m k (probe_stride cfg k ?m) (?pos 0) (?pos 0) p)
          = Inr (Some (?pos n))" for p
    using gs len n(1) _ _ before
    by (rule IndexOf_walk_finds) (use n j fuel in simp_all)
  then have walk: "\<exists>q. IndexOf_walk fuel ?tb ?m k (probe_stride cfg k ?m)
      (PrimaryHashFunc cfg k ?m) (PrimaryHashFunc cfg k ?m) p = (Inr (Some j), q)" for p
    unfolding probe_pos_0 [OF gs] n(2) by (metis prod.collapse)
  have h: "PrimaryHashFunc cfg k ?m < length ?tb"
    using gs len by (simp add: good_size_def)
  obtain q where "IndexOf fuel cfg t k = (Inr (Some j), q)"
    using walk h by (auto simp: IndexOf_def Let_def)
  with j(4) show ?thesis by (simp add: find_ht_def)
qed

lemma distinct_keys_filter:
  assumes "\<forall>i<length xs. \<forall>j<length xs.
     State (xs ! i) = OCCUPIED \<and> State (xs ! j) = OCCUPIED \<and> Key (xs ! i) = Key (xs ! j)
       \<longrightarrow> i = j"
  shows "distinct (map Key (filter (\<lambda>s. State s = OCCUPIED) xs))"
  using assms
proof (induction xs)
  case Nil
  show ?case by simp
next
  case (Cons x xs)
  have tail: "\<forall>i<length xs. \<forall>j<length xs.
     State (xs ! i) = OCCUPIED \<and> State (xs ! j) = OCCUPIED \<and> Key (xs ! i) = Key (xs ! j)
       \<longrightarrow> i = j"
  proof (intro allI impI)
    fix i j assume "i < length xs" "j < length xs"
      "State (xs ! i) = OCCUPIED \<and> State (xs ! j) = OCCUPIED \<and> Key (xs ! i) = Key (xs ! j)"
    with Cons.prems [rule_format, of "Suc i" "Suc j"] show "i = j" by simp
  qed
  have head: "Key x \<noteq> Key y" if "State x = OCCUPIED" "y \<in> set xs" "State y = OCCUPIED" for y
  proof
    assume eq: "Key x = Key y"
    from that(2) obtain j where "j < length xs" "xs ! j = y" by (auto simp: in_set_conv_nth)
    with Cons.prems [rule_format, of 0 "Suc j"] that eq show False by simp
  qed
  from Cons.IH [OF tail] head show ?case by auto
qed

lemma occupied_Cons:
  "occupied (s # ss) = (if State s = OCCUPIED then Suc (occupied ss) else occupied ss)"
  by (simp add: occupied_def)

lemma GrowTable_copy_ok:
  assumes gs: "good_size cfg p" and fuel: "p \<le> fuel"
  shows "length new = p \<Longrightarrow> wf_table cfg new \<Longrightarrow>
    distinct (map Key (filter (\<lambda>s. State s = OCCUPIED) old)) \<Longrightarrow>
    (\<forall>s \<in> set old. State s = OCCUPIED \<longrightarrow>
        Key s \<notin> fst ` entries new \<and> length (Key s) < MAX_KEYLEN) \<Longrightarrow>
    occupied new + occupied old \<le> p \<Longrightarrow>
    \<exists>new' q. GrowTable_copy fuel cfg old new p probes = (Inr new', q) \<and>
      length new' = p \<and> wf_table cfg new' \<and>
      entries new' = entries new \<union> entries old \<and>
      occupied new' = occupied new + occupied old"
proof (induction old arbitrary: new probes)
  case Nil
  then show ?case by (simp add: entries_Nil occupied_def)
next
  case (Cons s old)
  show ?case
  proof (cases "State s = OCCUPIED")
    case False
    with Cons.prems have "\<exists>new' q. GrowTable_copy fuel cfg old new p probes = (Inr new', q) \<and>
      length new' = p \<and> wf_table cfg new' \<and>
      entries new' = entries new \<union> entries old \<and>
      occupied new' = occupied new + occupied old"
      by (intro Cons.IH) (simp_all add: occupied_Cons)
    with False show ?thesis by (simp add: entries_Cons occupied_Cons)
  next
    case True
    from Cons.prems(1) gs have gs': "good_size cfg (length new)" by simp
    from True Cons.prems(4) have absent: "Key s \<notin> fst ` entries new"
      and short: "length (Key s) < MAX_KEYLEN" by simp_all
    from True Cons.prems(5) Cons.prems(1) have room: "occupied new < length new"
      by (simp add: occupied_Cons)
    from fuel Cons.prems(1) have fuel': "length new \<le> fuel" by simp
    from InsertInTable_ok [OF gs' Cons.prems(2) absent room short fuel', of "Data s" probes]
    obtain new1 q1 where ins:
      "InsertInTable fuel cfg new p (Key s) (Data s) probes = (Inr new1, q1)"
      "length new1 = p" "wf_table cfg new1"
      "entries new1 = insert (Key s, Data s) (entries new)"
      "occupied new1 = Suc (occupied new)"
      using Cons.prems(1) by auto
    from Cons.prems(3) True have d: "distinct (map Key (filter (\<lambda>s. State s = OCCUPIED) old))"
      and notin: "Key s \<notin> Key ` {x \<in> set old. State x = OCCUPIED}" by simp_all
    have nk: "\<forall>s' \<in> set old. State s' = OCCUPIED \<longrightarrow> Key s' \<noteq> Key s"
    proof (intro ballI impI notI)
      fix s' assume s': "s' \<in> set old" "State s' = OCCUPIED" "Key s' = Key s"
      from s'(1,2) have "s' \<in> {x \<in> set old. State x = OCCUPIED}" by simp
      then have "Key s' \<in> Key ` {x \<in> set old. State x = OCCUPIED}" by (rule imageI)
      with s'(3) notin show False by simp
    qed
    have a: "\<forall>s' \<in> set old. State s' = OCCUPIED \<longrightarrow>
        Key s' \<notin> fst ` entries new1 \<and> length (Key s') < MAX_KEYLEN"
      using Cons.prems(4) nk by (auto simp: ins(4))
    have r: "occupied new1 + occupied old \<le> p"
      using Cons.prems(5) True by (simp add: ins(5) occupied_Cons)
    from Cons.IH [OF ins(2,3) d a r, of q1]
    obtain new' q where rest: "GrowTable_copy fuel cfg old new1 p q1 = (Inr new', q)"
      "length new' = p" "wf_table cfg new'"
      "entries new' = entries new1 \<union> entries old"
      "occupied new' = occupied new1 + occupied old" by blast
    from True ins(1) rest(1) have "GrowTable_copy fuel cfg (s # old) new p probes = (Inr new', q)"
      by simp
    with rest True show ?thesis by (simp add: ins entries_Cons occupied_Cons)
  qed
qed

lemma wf_table_fresh: "wf_table cfg (replicate p (fresh_slot cfg))"
  by (simp add: wf_table_def fresh_slot_def)

lemma occupied_fresh: "occupied (replicate p (fresh_slot cfg)) = 0"
  by (simp add: occupied_def fresh_slot_def)

lemma GrowTable_ok:
  assumes wf: "wf_table cfg (mTable t)"
    and gs: "good_size cfg (grow_size cfg (TableSize t))"
    and room: "occupied (mTable t) \<le> grow_size cfg (TableSize t)"
    and fuel: "grow_size cfg (TableSize t) \<le> fuel"
    and fits: "grow_fits cfg (TableSize t)"
  shows "\<exists>t'. GrowTable fuel cfg t = (None, t') \<and>
    TableSize t' = grow_size cfg (TableSize t) \<and> length (mTable t') = TableSize t' \<and>
    wf_table cfg (mTable t') \<and> entries (mTable t') = entries (mTable t) \<and>
    occupied (mTable t') = occupied (mTable t) \<and> Count t' = Count t"
proof -
  let ?p = "grow_size cfg (TableSize t)"
  let ?new = "replicate ?p (fresh_slot cfg)"
  from wf have d: "distinct (map Key (filter (\<lambda>s. State s = OCCUPIED) (mTable t)))"
    unfolding wf_table_def by (intro distinct_keys_filter) blast
  have a: "\<forall>s \<in> set (mTable t). State s = OCCUPIED \<longrightarrow>
      Key s \<notin> fst ` entries ?new \<and> length (Key s) < MAX_KEYLEN"
    using wf unfolding wf_table_def by (auto simp: entries_fresh in_set_conv_nth)
  have r: "occupied ?new + occupied (mTable t) \<le> ?p" using room by (simp add: occupied_fresh)
  from GrowTable_copy_ok [OF gs fuel _ wf_table_fresh d a r, of "Probes t"]
  obtain new' q where "GrowTable_copy fuel cfg (mTable t) ?new ?p (Probes t) = (Inr new', q)"
    "length new' = ?p" "wf_table cfg new'" "entries new' = entries ?new \<union> entries (mTable t)"
    "occupied new' = occupied ?new + occupied (mTable t)" by auto
  with fits show ?thesis by (simp add: GrowTable_def Let_def entries_fresh occupied_fresh)
qed

lemma unat_Suc_32:
  fixes c :: "32 word"
  assumes "unat c < 2 ^ 31"
  shows "unat (c + 1) = Suc (unat c)"
proof -
  have "(2::nat) ^ 31 < 2 ^ 32" by (rule power_strict_increasing) simp_all
  with assms have "unat c + unat (1 :: 32 word) < 2 ^ LENGTH(32)" by simp
  then have "unat (c + 1) = unat c + unat (1 :: 32 word)"
    by (simp only: unat_add_lem)
  then show ?thesis by simp
qed

text \<open>
  With a maximum load factor of at most 1 the guard of \<^verbatim>\<open>insert\<close> keeps a free slot: a
  quotient above 1 is above 1 as a double too.
\<close>

lemma load_le_1:
  assumes "\<not> load_exceeds c m mlf" "fl mlf \<le> 1" "0 < m" "m \<le> 2 ^ 32"
  shows "unat (c + 1) \<le> m"
proof (rule ccontr)
  assume "\<not> unat (c + 1) \<le> m"
  then have "m < unat (c + 1)" by simp
  with assms(3) have "1 < fl (of_nat (unat (c + 1)) / of_nat m)"
    using assms(4) by (rule fl_ratio_gt_one)
  with assms(2) have "fl mlf < fl (of_nat (unat (c + 1)) / of_nat m)" by linarith
  with assms(1,3) show False by (simp add: load_exceeds_def)
qed

text \<open>The invariant of the table object, and the capacity an insert leaves.\<close>

definition table_inv :: "'v OAHTConfig \<Rightarrow> 'v OAHashTable \<Rightarrow> bool" where
  "table_inv cfg t \<longleftrightarrow>
     length (mTable t) = TableSize t \<and> TableSize t \<le> 2 ^ 31 \<and>
     (TableSize t = 0 \<or> good_size cfg (TableSize t)) \<and>
     wf_table cfg (mTable t) \<and> unat (Count t) = occupied (mTable t)"

lemma insert_no_grow:
  assumes inv: "table_inv cfg t" and gs: "good_size cfg (TableSize t)"
    and room: "occupied (mTable t) < TableSize t"
    and absent: "key \<notin> fst ` entries (mTable t)" and short: "length key < MAX_KEYLEN"
    and fuel: "TableSize t \<le> fuel"
  shows "\<exists>tb p. InsertInTable fuel cfg (mTable t) (TableSize t) key data (Probes t) = (Inr tb, p) \<and>
     table_inv cfg (t\<lparr>mTable := tb, Probes := p, Count := Count t + 1\<rparr>) \<and>
     entries tb = insert (key, data) (entries (mTable t))"
proof -
  from inv have len: "length (mTable t) = TableSize t" and sz: "TableSize t \<le> 2 ^ 31"
    and wf: "wf_table cfg (mTable t)" and cnt: "unat (Count t) = occupied (mTable t)"
    by (simp_all add: table_inv_def)
  from InsertInTable_ok [of cfg "mTable t" key fuel "data" "Probes t"] gs wf absent room short fuel
  obtain tb p where ins:
    "InsertInTable fuel cfg (mTable t) (TableSize t) key data (Probes t) = (Inr tb, p)"
    "length tb = TableSize t" "wf_table cfg tb"
    "entries tb = insert (key, data) (entries (mTable t))"
    "occupied tb = Suc (occupied (mTable t))"
    unfolding len by blast
  from room sz cnt have "unat (Count t) < 2 ^ 31" by simp
  then have "unat (Count t + 1) = Suc (unat (Count t))" by (rule unat_Suc_32)
  with cnt ins(5) have "unat (Count t + 1) = occupied tb" by simp
  with ins(2,3) sz gs have "table_inv cfg (t\<lparr>mTable := tb, Probes := p, Count := Count t + 1\<rparr>)"
    by (simp add: table_inv_def)
  with ins(1,4) show ?thesis by blast
qed

definition next_capacity :: "'v OAHTConfig \<Rightarrow> 'v OAHashTable \<Rightarrow> nat" where
  "next_capacity cfg t =
     (if load_exceeds (Count t) (TableSize t) (MaxLoadFactor cfg)
      then grow_size cfg (TableSize t) else TableSize t)"

lemma insert_ht_ok:
  assumes hr: "hash_in_range cfg" and mlf: "fl (MaxLoadFactor cfg) \<le> 1"
    and gf: "1 < fl (GrowthFactor cfg)"
    and inv: "table_inv cfg t"
    and absent: "key \<notin> fst ` entries (mTable t)" and short: "length key < MAX_KEYLEN"
    and bound: "next_capacity cfg t \<le> 2 ^ 31" and fuel: "next_capacity cfg t \<le> fuel"
  shows "\<exists>t'. insert_ht fuel cfg t key data = (None, t') \<and> table_inv cfg t' \<and>
     entries (mTable t') = insert (key, data) (entries (mTable t)) \<and>
     TableSize t' = next_capacity cfg t \<and> Count t' = Count t + 1"
proof (cases "load_exceeds (Count t) (TableSize t) (MaxLoadFactor cfg)")
  case False
  from inv have len: "length (mTable t) = TableSize t" and sz: "TableSize t \<le> 2 ^ 31"
    and cnt: "unat (Count t) = occupied (mTable t)"
    and gs0: "TableSize t = 0 \<or> good_size cfg (TableSize t)"
    by (simp_all add: table_inv_def)
  have c31: "unat (Count t) < 2 ^ 31 \<or> TableSize t = 2 ^ 31 \<and> unat (Count t) = 2 ^ 31"
    using occupied_le [of "mTable t"] len sz cnt by linarith
  have pos: "TableSize t \<noteq> 0"
  proof
    assume z: "TableSize t = 0"
    with len cnt have "unat (Count t) = 0" by (simp add: occupied_def)
    then have "Count t = 0" by (simp add: unat_eq_0)
    with z False show False by (simp add: load_exceeds_def)
  qed
  with gs0 have gs: "good_size cfg (TableSize t)" by simp
  from sz have "TableSize t < 2 ^ 32" by (rule less_2_32)
  then have "TableSize t \<le> 2 ^ 32" by (rule less_imp_le)
  with False mlf pos have le: "unat (Count t + 1) \<le> TableSize t"
    by (intro load_le_1 [of "Count t" "TableSize t" "MaxLoadFactor cfg"]) simp_all
  have room: "occupied (mTable t) < TableSize t"
  proof (cases "unat (Count t) < 2 ^ 31")
    case True
    then have "unat (Count t + 1) = Suc (unat (Count t))" by (rule unat_Suc_32)
    with le cnt show ?thesis by simp
  next
    case f: False
    with c31 have full: "TableSize t = 2 ^ 31" "unat (Count t) = 2 ^ 31" by simp_all
    have "(2::nat) ^ 31 + 1 < 2 ^ 32"
    proof -
      have "(2::nat) ^ 32 = 2 ^ 31 + 2 ^ 31" by simp
      moreover have "(1::nat) < 2 ^ 31" by (rule one_less_power) simp_all
      ultimately show ?thesis by linarith
    qed
    with full(2) have "unat (Count t) + unat (1 :: 32 word) < 2 ^ LENGTH(32)" by simp
    then have "unat (Count t + 1) = unat (Count t) + unat (1 :: 32 word)"
      by (simp only: unat_add_lem)
    with le full show ?thesis by simp
  qed
  from False have nc: "next_capacity cfg t = TableSize t" by (simp add: next_capacity_def)
  from insert_no_grow [OF inv gs room absent short, of fuel data] fuel nc
  obtain tb p where
    "InsertInTable fuel cfg (mTable t) (TableSize t) key data (Probes t) = (Inr tb, p)"
    "table_inv cfg (t\<lparr>mTable := tb, Probes := p, Count := Count t + 1\<rparr>)"
    "entries tb = insert (key, data) (entries (mTable t))" by auto
  with False nc show ?thesis by (simp add: insert_ht_def)
next
  case True
  let ?p = "grow_size cfg (TableSize t)"
  from True have nc: "next_capacity cfg t = ?p" by (simp add: next_capacity_def)
  from inv have len: "length (mTable t) = TableSize t"
    and wf: "wf_table cfg (mTable t)" and cnt: "unat (Count t) = occupied (mTable t)"
    by (simp_all add: table_inv_def)
  have gs: "good_size cfg ?p"
    using hr grow_size_prime bound unfolding nc by (rule good_size_prime)
  have lt: "TableSize t < ?p" using gf by (rule grow_size_gt)
  with occupied_le [of "mTable t"] len have room: "occupied (mTable t) < ?p" by simp
  from fuel nc have fuelp: "?p \<le> fuel" by simp
  from bound have "?p < 2 ^ 32" unfolding nc by (rule less_2_32)
  with gf have fits: "grow_fits cfg (TableSize t)" by (intro grow_fitsI) simp_all
  from GrowTable_ok [OF wf gs less_imp_le [OF room] fuelp fits]
  obtain t1 where g: "GrowTable fuel cfg t = (None, t1)" "TableSize t1 = ?p"
    "length (mTable t1) = TableSize t1" "wf_table cfg (mTable t1)"
    "entries (mTable t1) = entries (mTable t)" "occupied (mTable t1) = occupied (mTable t)"
    "Count t1 = Count t" by auto
  have inv1: "table_inv cfg t1"
    using g gs bound nc cnt by (simp add: table_inv_def)
  have gs1: "good_size cfg (TableSize t1)" using gs g(2) by simp
  have room1: "occupied (mTable t1) < TableSize t1" using room g by simp
  have abs1: "key \<notin> fst ` entries (mTable t1)" using absent g(5) by simp
  have fuel1: "TableSize t1 \<le> fuel" using fuel nc g(2) by simp
  from insert_no_grow [OF inv1 gs1 room1 abs1 short fuel1, of data]
  obtain tb p where
    "InsertInTable fuel cfg (mTable t1) (TableSize t1) key data (Probes t1) = (Inr tb, p)"
    "table_inv cfg (t1\<lparr>mTable := tb, Probes := p, Count := Count t1 + 1\<rparr>)"
    "entries tb = insert (key, data) (entries (mTable t1))" by auto
  with True g nc show ?thesis by (simp add: insert_ht_def)
qed

text \<open>
  The capacity after \<open>n\<close> inserts into a new table: it depends on the configuration
  and on \<open>n\<close> only, since each insert that returns adds one to the count.
\<close>

fun capacity_after :: "'v OAHTConfig \<Rightarrow> nat \<Rightarrow> nat" where
  "capacity_after cfg 0 = InitialTableSize cfg"
| "capacity_after cfg (Suc n) =
     (if load_exceeds (of_nat n) (capacity_after cfg n) (MaxLoadFactor cfg)
      then grow_size cfg (capacity_after cfg n) else capacity_after cfg n)"

lemma capacity_after_mono:
  assumes "1 < fl (GrowthFactor cfg)" "i \<le> j"
  shows "capacity_after cfg i \<le> capacity_after cfg j"
proof (rule lift_Suc_mono_le [OF _ assms(2)])
  fix n
  from grow_size_gt [OF assms(1), of "capacity_after cfg n"]
  show "capacity_after cfg n \<le> capacity_after cfg (Suc n)" by simp
qed

lemma run_ops_append:
  "run_ops fuel cfg t (xs @ ys) =
     (case run_ops fuel cfg t xs of None \<Rightarrow> None | Some t' \<Rightarrow> run_ops fuel cfg t' ys)"
  by (induction xs arbitrary: t) (auto split: prod.splits sum.splits error.splits)

lemma trace_ops_append:
  "run_ops fuel cfg t xs = Some t' \<Longrightarrow>
     trace_ops fuel cfg t (xs @ ys) = trace_ops fuel cfg t xs @ trace_ops fuel cfg t' ys"
  by (induction xs arbitrary: t) (auto split: prod.splits sum.splits error.splits)

lemma table_inv_init:
  assumes "hash_in_range cfg"
    and "SecondaryHashFunc cfg = None \<or> is_prime (InitialTableSize cfg)"
    and "InitialTableSize cfg \<le> 2 ^ 31"
  shows "table_inv cfg (OAHashTable cfg)"
proof -
  have "InitialTableSize cfg = 0 \<or> good_size cfg (InitialTableSize cfg)"
    using assms good_size_prime [of cfg "InitialTableSize cfg"]
      good_size_linear [of cfg "InitialTableSize cfg"] by auto
  with assms(3) show ?thesis
    by (simp add: table_inv_def OAHashTable_def wf_table_fresh occupied_fresh)
qed

lemma insert_run:
  assumes hr: "hash_in_range cfg"
    and sec: "SecondaryHashFunc cfg = None \<or> is_prime (InitialTableSize cfg)"
    and mlf: "fl (MaxLoadFactor cfg) \<le> 1" and gf: "1 < fl (GrowthFactor cfg)"
  shows "distinct (map fst kvs) \<Longrightarrow> \<forall>kv \<in> set kvs. length (fst kv) < MAX_KEYLEN \<Longrightarrow>
    capacity_after cfg (length kvs) \<le> 2 ^ 31 \<Longrightarrow> capacity_after cfg (length kvs) \<le> fuel \<Longrightarrow>
    \<exists>t. run_ops fuel cfg (OAHashTable cfg) (map (\<lambda>(k, v). Insert k v) kvs) = Some t \<and>
        trace_ops fuel cfg (OAHashTable cfg) (map (\<lambda>(k, v). Insert k v) kvs)
          = replicate (length kvs) (Inr None) \<and>
        table_inv cfg t \<and> entries (mTable t) = set kvs \<and>
        TableSize t = capacity_after cfg (length kvs) \<and> Count t = of_nat (length kvs)"
proof (induction kvs rule: rev_induct)
  case Nil
  then have "InitialTableSize cfg \<le> 2 ^ 31" by simp
  with hr sec have "table_inv cfg (OAHashTable cfg)" by (rule table_inv_init)
  then show ?case by (simp add: OAHashTable_def entries_fresh)
next
  case (snoc kv kvs)
  obtain k v where kv: "kv = (k, v)" by (cases kv)
  let ?ops = "map (\<lambda>(k, v). Insert k v) kvs"
  have le: "capacity_after cfg (length kvs) \<le> capacity_after cfg (Suc (length kvs))"
    using gf by (rule capacity_after_mono) simp
  from snoc.prems have d: "distinct (map fst kvs)" and nk: "k \<notin> fst ` set kvs"
    and sh: "\<forall>kv \<in> set kvs. length (fst kv) < MAX_KEYLEN" and shk: "length k < MAX_KEYLEN"
    and b: "capacity_after cfg (Suc (length kvs)) \<le> 2 ^ 31"
    and f: "capacity_after cfg (Suc (length kvs)) \<le> fuel"
    by (simp_all add: kv)
  from b f le have b0: "capacity_after cfg (length kvs) \<le> 2 ^ 31"
    and f0: "capacity_after cfg (length kvs) \<le> fuel" by simp_all
  from snoc.IH [OF d sh b0 f0] obtain t where t:
    "run_ops fuel cfg (OAHashTable cfg) ?ops = Some t"
    "trace_ops fuel cfg (OAHashTable cfg) ?ops = replicate (length kvs) (Inr None)"
    "table_inv cfg t" "entries (mTable t) = set kvs"
    "TableSize t = capacity_after cfg (length kvs)" "Count t = of_nat (length kvs)"
    by blast
  have nc: "next_capacity cfg t = capacity_after cfg (Suc (length kvs))"
    by (simp add: next_capacity_def t(5,6))
  have absent: "k \<notin> fst ` entries (mTable t)" using nk t(4) by simp
  from insert_ht_ok [OF hr mlf gf t(3) absent shk, of fuel v] b f nc
  obtain t' where t': "insert_ht fuel cfg t k v = (None, t')" "table_inv cfg t'"
    "entries (mTable t') = insert (k, v) (entries (mTable t))"
    "TableSize t' = next_capacity cfg t" "Count t' = Count t + 1" by auto
  have r: "run_ops fuel cfg (OAHashTable cfg) (?ops @ [Insert k v]) = Some t'"
    by (simp add: run_ops_append t(1) t'(1))
  have tr: "trace_ops fuel cfg (OAHashTable cfg) (?ops @ [Insert k v])
              = replicate (length kvs) (Inr None) @ [Inr None]"
    by (simp add: trace_ops_append [OF t(1)] t(2) t'(1))
  have rep: "replicate (length (kvs @ [kv])) (Inr None)
               = replicate (length kvs) (Inr None) @ [Inr None :: error + 'a option]"
    by (simp add: replicate_append_same)
  show ?case
    unfolding rep using r tr t'(2,3,4,5) t(4,6) nc
    by (intro exI [of _ t']) (simp add: kv)
qed

text \<open>
  The table after \<open>insert("aaaa", 1)\<close> and \<open>insert("bbbb", 2)\<close> into a table of
  capacity 4 with double hashing: both keys hash to slot 0, with stride 2.
\<close>

definition two_of_four :: "nat OAHashTable" where
  "two_of_four =
     \<lparr>mTable = [\<lparr>Key = ''aaaa'', Data = 1, State = OCCUPIED\<rparr>,
                \<lparr>Key = [], Data = 0, State = UNOCCUPIED\<rparr>,
                \<lparr>Key = ''bbbb'', Data = 2, State = OCCUPIED\<rparr>,
                \<lparr>Key = [], Data = 0, State = UNOCCUPIED\<rparr>],
      Count = 2, TableSize = 4, Probes = 3, Expansions = 0, freed = []\<rparr>"

text \<open>
  In a table of capacity 4 the probe sequence with stride 2 from slot 0 visits the
  slots 0 and 2 only: when both are occupied by other keys, the loop of
  \<^verbatim>\<open>InsertInTable\<close> does not leave.
\<close>

lemma InsertInTable_probe_cycle:
  assumes "length tb = 4"
    and "State (tb ! 0) = OCCUPIED" "Key (tb ! 0) \<noteq> key"
    and "State (tb ! 2) = OCCUPIED" "Key (tb ! 2) \<noteq> key"
  shows "i = 0 \<or> i = 2 \<Longrightarrow> fst (InsertInTable_probe fuel tb 4 key 2 i probes) = Inl OutOfFuel"
proof (induction fuel arbitrary: i probes)
  case 0
  then show ?case by simp
next
  case (Suc fuel)
  have s0: "probe_step 4 2 0 = 2" by code_simp
  have s2: "probe_step 4 2 2 = 0" by code_simp
  from Suc.prems show ?case
  proof
    assume "i = 0"
    with assms Suc.IH [of 2] show ?thesis by (simp add: s0)
  next
    assume "i = 2"
    with assms Suc.IH [of 0] show ?thesis by (simp add: s2)
  qed
qed

text \<open>
  C4, as amended. The claim: for every sequence of inserts of pairwise distinct keys,
  with hash functions that return values in range, \<open>find(k)\<close> right after
  \<open>insert(k, v)\<close> returns \<open>v\<close>, under either deletion policy and across the growths
  that occur. The code relies on more than the claim states. So: for every sequence of
  inserts of pairwise distinct keys into a new table, with hash functions that return
  values in range, every insert returns and the \<open>find\<close> right after \<open>insert(k, v)\<close>
  returns \<open>v\<close>, under either deletion policy and across the growths that occur,
  provided that the initial size is prime or the probing linear (no secondary hash
  function), the maximum load factor (the double) is at most 1, the growth factor (the
  double) is above 1, the keys fit \<^verbatim>\<open>Key[MAX_KEYLEN]\<close>, the capacity stays within
  \<open>2 ^ 31\<close>, where the unsigned index arithmetic cannot wrap, and the fuel covers one
  pass over the table.
\<close>

theorem insert_find_roundtrip:
  assumes "hash_in_range cfg"
    and "SecondaryHashFunc cfg = None \<or> is_prime (InitialTableSize cfg)"
    and "fl (MaxLoadFactor cfg) \<le> 1" and "1 < fl (GrowthFactor cfg)"
    and "distinct (map fst (kvs @ [(k, v)]))"
    and "\<forall>kv \<in> set (kvs @ [(k, v)]). length (fst kv) < MAX_KEYLEN"
    and "capacity_after cfg (Suc (length kvs)) \<le> 2 ^ 31"
    and "capacity_after cfg (Suc (length kvs)) \<le> fuel"
  shows "trace_ops fuel cfg (OAHashTable cfg)
           (map (\<lambda>(k, v). Insert k v) kvs @ [Insert k v, Find k])
         = replicate (length kvs) (Inr None) @ [Inr None, Inr (Some v)]"
proof -
  let ?kvs = "kvs @ [(k, v)]"
  let ?ops = "map (\<lambda>(k, v). Insert k v) ?kvs"
  have len: "length ?kvs = Suc (length kvs)" by simp
  from insert_run [OF assms(1-6), of fuel] assms(7,8) obtain t where t:
    "run_ops fuel cfg (OAHashTable cfg) ?ops = Some t"
    "trace_ops fuel cfg (OAHashTable cfg) ?ops = replicate (length ?kvs) (Inr None)"
    "table_inv cfg t" "entries (mTable t) = set ?kvs"
    "TableSize t = capacity_after cfg (length ?kvs)"
    unfolding len by blast
  from t(4) have mem: "(k, v) \<in> entries (mTable t)" by simp
  from t(3) have inv: "length (mTable t) = TableSize t" "wf_table cfg (mTable t)"
    "TableSize t = 0 \<or> good_size cfg (TableSize t)" by (simp_all add: table_inv_def)
  from mem inv(1) have "TableSize t \<noteq> 0" by (auto simp: entries_iff)
  with inv(3) have gs: "good_size cfg (TableSize t)" by simp
  from t(5) assms(8) have "TableSize t \<le> fuel" by simp
  with gs inv(1,2) mem have "fst (find_ht fuel cfg t k) = Inr v" by (rule find_ht_ok)
  then obtain t2 where "find_ht fuel cfg t k = (Inr v, t2)" by (metis prod.collapse)
  then have f: "trace_ops fuel cfg t [Find k] = [Inr (Some v)]" by simp
  have eq: "map (\<lambda>(k, v). Insert k v) kvs @ [Insert k v, Find k] = ?ops @ [Find k]" by simp
  have rep: "replicate (length ?kvs) (Inr None) @ [Inr (Some v)]
               = replicate (length kvs) (Inr None) @ [Inr None, Inr (Some v) :: error + 'a option]"
    by (simp add: replicate_append_same)
  show ?thesis
    unfolding eq trace_ops_append [OF t(1)] t(2) f rep ..
qed

text \<open>
  An example with double hashing: both hash functions are \<open>length_hash\<close>. After the
  growth to 7 slots the keys \<open>"a"\<close> and \<open>"aaaaaaaa"\<close> collide in slot 1, and the second
  one goes on with stride 3.
\<close>

theorem insert_find_roundtrip_witness:
  "hash_in_range (double_cfg 3 MARK (1 / 2)) \<and>
   is_prime (InitialTableSize (double_cfg 3 MARK (1 / 2))) \<and>
   fl (MaxLoadFactor (double_cfg 3 MARK (1 / 2))) \<le> 1 \<and>
   1 < fl (GrowthFactor (double_cfg 3 MARK (1 / 2))) \<and>
   distinct (map fst [(''a'', 1), (''bb'', 2), (''aaaaaaaa'', 3 :: nat)]) \<and>
   list_all (\<lambda>kv. length (fst kv) < MAX_KEYLEN) [(''a'', 1), (''bb'', 2), (''aaaaaaaa'', 3 :: nat)] \<and>
   capacity_after (double_cfg 3 MARK (1 / 2)) 3 = 7 \<and>
   PrimaryHashFunc (double_cfg 3 MARK (1 / 2)) ''a'' 7
     = PrimaryHashFunc (double_cfg 3 MARK (1 / 2)) ''aaaaaaaa'' 7 \<and>
   trace_ops 10 (double_cfg 3 MARK (1 / 2)) (OAHashTable (double_cfg 3 MARK (1 / 2)))
     [Insert ''a'' 1, Insert ''bb'' 2, Insert ''aaaaaaaa'' 3, Find ''aaaaaaaa'']
       = [Inr None, Inr None, Inr None, Inr (Some 3)]"
proof -
  let ?cfg = "double_cfg 3 MARK (1 / 2)"
  let ?kvs = "[(''a'', 1), (''bb'', 2 :: nat)]"
  have 1: "hash_in_range ?cfg"
    by (simp add: hash_in_range_def double_cfg_def length_hash_def)
  have p: "is_prime (InitialTableSize ?cfg)" by code_simp
  then have 2: "SecondaryHashFunc ?cfg = None \<or> is_prime (InitialTableSize ?cfg)" ..
  have 3: "fl (MaxLoadFactor ?cfg) \<le> 1" by code_simp
  have 4: "1 < fl (GrowthFactor ?cfg)" by code_simp
  have 5: "distinct (map fst (?kvs @ [(''aaaaaaaa'', 3)]))" by simp
  have 6: "\<forall>kv \<in> set (?kvs @ [(''aaaaaaaa'', 3)]). length (fst kv) < MAX_KEYLEN"
    by (simp add: MAX_KEYLEN_def)
  have c: "capacity_after ?cfg 3 = 7" by code_simp
  have h: "PrimaryHashFunc ?cfg ''a'' 7 = PrimaryHashFunc ?cfg ''aaaaaaaa'' 7"
    by code_simp
  have n: "Suc (length ?kvs) = 3" by simp
  have 7: "capacity_after ?cfg (Suc (length ?kvs)) \<le> 2 ^ 31" unfolding n c by simp
  have 8: "capacity_after ?cfg (Suc (length ?kvs)) \<le> 10" unfolding n c by simp
  from insert_find_roundtrip [OF 1 2 3 4 5 6 7 8]
  have t: "trace_ops 10 ?cfg (OAHashTable ?cfg)
     [Insert ''a'' 1, Insert ''bb'' 2, Insert ''aaaaaaaa'' 3, Find ''aaaaaaaa'']
       = [Inr None, Inr None, Inr None, Inr (Some 3)]"
    by (simp add: numeral_2_eq_2)
  have d: "distinct (map fst [(''a'', 1), (''bb'', 2), (''aaaaaaaa'', 3 :: nat)])" by simp
  have la: "list_all (\<lambda>kv. length (fst kv) < MAX_KEYLEN)
      [(''a'', 1), (''bb'', 2), (''aaaaaaaa'', 3 :: nat)]"
    by (simp add: MAX_KEYLEN_def)
  from 1 p 3 4 d la c h t show ?thesis by blast
qed

text \<open>
  The claim of C4 as stated fails: capacity 4, double hashing, both hash functions in
  range, three distinct keys of length 4. They hash to slot 0 with stride 2 (the
  secondary hash function gives \<open>4 mod 3 = 1\<close>). The first two inserts return and
  occupy the slots 0 and 2; the guard of the third does not trip (3/4 is not above the
  maximum load factor 1), and its probe loop visits the slots 0, 2, 0, 2, ... and does
  not leave, whatever the fuel.
\<close>

theorem composite_size_insert_never_returns:
  "hash_in_range (double_cfg 4 PACK 1) \<and>
   distinct [''aaaa'', ''bbbb'', ''cccc''] \<and>
   run_ops 10 (double_cfg 4 PACK 1) (OAHashTable (double_cfg 4 PACK 1))
     [Insert ''aaaa'' 1, Insert ''bbbb'' 2] = Some two_of_four \<and>
   trace_ops 10 (double_cfg 4 PACK 1) (OAHashTable (double_cfg 4 PACK 1))
     [Insert ''aaaa'' 1, Insert ''bbbb'' 2] = [Inr None, Inr None] \<and>
   (\<forall>fuel. fst (insert_ht fuel (double_cfg 4 PACK 1) two_of_four ''cccc'' 3)
              = Some OutOfFuel)"
proof -
  let ?cfg = "double_cfg 4 PACK 1"
  have 1: "hash_in_range ?cfg"
    by (simp add: hash_in_range_def double_cfg_def length_hash_def)
  have 2: "distinct [''aaaa'', ''bbbb'', ''cccc'']" by simp
  have 3: "run_ops 10 ?cfg (OAHashTable ?cfg) [Insert ''aaaa'' 1, Insert ''bbbb'' 2]
             = Some two_of_four"
    by code_simp
  have 4: "trace_ops 10 ?cfg (OAHashTable ?cfg) [Insert ''aaaa'' 1, Insert ''bbbb'' 2]
             = [Inr None, Inr None]"
    by code_simp
  have g: "\<not> load_exceeds (Count two_of_four) (TableSize two_of_four) (MaxLoadFactor ?cfg)"
    by code_simp
  have h: "PrimaryHashFunc ?cfg ''cccc'' 4 = 0" by code_simp
  have s: "probe_stride ?cfg ''cccc'' 4 = 2" by code_simp
  have ts: "TableSize two_of_four = 4" by (simp add: two_of_four_def)
  have 5: "fst (insert_ht fuel ?cfg two_of_four ''cccc'' 3) = Some OutOfFuel" for fuel
  proof -
    have "fst (InsertInTable_probe fuel (mTable two_of_four) 4 ''cccc'' 2 0
        (Probes two_of_four)) = Inl OutOfFuel"
      by (rule InsertInTable_probe_cycle) (simp_all add: two_of_four_def)
    then obtain q where "InsertInTable_probe fuel (mTable two_of_four) 4 ''cccc'' 2 0
        (Probes two_of_four) = (Inl OutOfFuel, q)"
      by (metis prod.collapse)
    then have "InsertInTable fuel ?cfg (mTable two_of_four) 4 ''cccc'' 3 (Probes two_of_four)
        = (Inl OutOfFuel, q)"
      by (simp add: InsertInTable_def Let_def h s)
    with g show ?thesis by (simp add: insert_ht_def ts)
  qed
  from 1 2 3 4 5 show ?thesis by blast
qed

section \<open>Bounds and termination of the probe loops\<close>

text \<open>
  Started below the table size, the three probe loops keep their index below it: the
  conditional subtraction after each step is the reduction modulo the size. And the
  walk of \<^verbatim>\<open>IndexOf\<close> is back at its first slot after one pass, where lines 330-333
  stop it, so \<open>find\<close> returns on every table of a good size.
\<close>

lemma probe_step_less:
  assumes "0 < m" "m \<le> 2 ^ 31" "i < m" "s \<le> m"
  shows "probe_step m s i < m"
  using probe_step_mod [OF assms] assms(1) by simp

lemma InsertInTable_probe_in_bounds:
  assumes "length tb = m" "0 < m" "m \<le> 2 ^ 31" "stride \<le> m"
  shows "index < m \<Longrightarrow>
    (case fst (InsertInTable_probe fuel tb m key stride index probes) of
       Inl e \<Rightarrow> e \<noteq> OutOfBounds | Inr j \<Rightarrow> j < m)"
proof (induction fuel arbitrary: index probes)
  case 0
  show ?case by simp
next
  case (Suc fuel)
  have "probe_step m stride index < m"
    using assms(2,3) Suc.prems assms(4) by (rule probe_step_less)
  from Suc.IH [OF this] Suc.prems assms(1) show ?case by simp
qed

lemma CheckForMark_scan_in_bounds:
  assumes "length tb = m" "0 < m" "m \<le> 2 ^ 31" "stride \<le> m"
  shows "index < m \<Longrightarrow>
    fst (CheckForMark_scan fuel tb m key stride index probes) \<noteq> Some OutOfBounds"
proof (induction fuel arbitrary: index probes)
  case 0
  show ?case by simp
next
  case (Suc fuel)
  have "probe_step m stride index < m"
    using assms(2,3) Suc.prems assms(4) by (rule probe_step_less)
  from Suc.IH [OF this] Suc.prems assms(1) show ?case by simp
qed

lemma IndexOf_walk_in_bounds:
  assumes "length tb = m" "0 < m" "m \<le> 2 ^ 31" "stride \<le> m"
  shows "index < m \<Longrightarrow>
    (case fst (IndexOf_walk fuel tb m key stride orig index probes) of
       Inl e \<Rightarrow> e \<noteq> OutOfBounds | Inr None \<Rightarrow> True | Inr (Some j) \<Rightarrow> j < m)"
proof (induction fuel arbitrary: index probes)
  case 0
  show ?case by simp
next
  case (Suc fuel)
  have "probe_step m stride index < m"
    using assms(2,3) Suc.prems assms(4) by (rule probe_step_less)
  from Suc.IH [OF this] this Suc.prems assms(1) show ?case by (simp add: Let_def)
qed

lemma probe_pos_cycle: "good_size cfg m \<Longrightarrow> probe_pos cfg m key m = probe_pos cfg m key 0"
  by (simp add: probe_pos_def)

lemma IndexOf_walk_returns:
  assumes gs: "good_size cfg m" and len: "length tb = m"
  shows "i < m \<Longrightarrow> m - i \<le> fuel \<Longrightarrow>
    fst (IndexOf_walk fuel tb m key (probe_stride cfg key m) (probe_pos cfg m key 0)
           (probe_pos cfg m key i) probes) \<noteq> Inl OutOfFuel"
proof (induction fuel arbitrary: i probes)
  case 0
  then show ?case by simp
next
  case (Suc fuel)
  from gs have m0: "0 < m" by (simp add: good_size_def)
  have lt: "\<not> length tb \<le> probe_pos cfg m key x" for x
    using probe_pos_less [OF m0, of cfg key x] len by simp
  show ?case
  proof (cases "Suc i = m")
    case True
    then have "probe_pos cfg m key (Suc i) = probe_pos cfg m key 0"
      using probe_pos_cycle [OF gs] by simp
    then show ?thesis by (simp add: probe_pos_Suc [OF gs] Let_def lt)
  next
    case False
    with Suc.prems have "Suc i < m" "m - Suc i \<le> fuel" by simp_all
    from Suc.IH [OF this] show ?thesis by (simp add: probe_pos_Suc [OF gs] Let_def lt)
  qed
qed

lemma find_ht_returns:
  assumes gs: "good_size cfg (TableSize t)" and len: "length (mTable t) = TableSize t"
    and fuel: "TableSize t \<le> fuel"
  shows "fst (find_ht fuel cfg t key) \<noteq> Inl OutOfFuel \<and>
         fst (find_ht fuel cfg t key) \<noteq> Inl OutOfBounds"
proof -
  let ?m = "TableSize t" and ?tb = "mTable t"
  let ?h = "PrimaryHashFunc cfg key ?m" and ?s = "probe_stride cfg key ?m"
  let ?p = "if State (?tb ! ?h) = UNOCCUPIED then Probes t + 1 else Probes t"
  from gs have m: "0 < ?m" "?m \<le> 2 ^ 31" and h: "?h < ?m" and s: "?s \<le> ?m"
    by (simp_all add: good_size_def)
  obtain r q where w: "IndexOf_walk fuel ?tb ?m key ?s ?h ?h ?p = (r, q)"
    by (cases "IndexOf_walk fuel ?tb ?m key ?s ?h ?h ?p")
  from IndexOf_walk_returns [OF gs len, of 0 fuel key ?p] m(1) fuel w
  have 1: "r \<noteq> Inl OutOfFuel" by (simp add: probe_pos_0 [OF gs])
  from IndexOf_walk_in_bounds [OF len m s h, of fuel key ?h ?p] w
  have 2: "r \<noteq> Inl OutOfBounds" by auto
  from h len w have "IndexOf fuel cfg t key = (r, q)" by (simp add: IndexOf_def Let_def)
  with 1 2 show ?thesis
    by (auto simp: find_ht_def split: sum.splits option.splits)
qed

section \<open>clear\<close>

text \<open>
  \<^verbatim>\<open>clear\<close> has no failing exit. It keeps the capacity, leaves every slot unoccupied,
  and subtracts the number of occupied slots from the count; a second \<^verbatim>\<open>clear\<close> changes
  nothing, and after it no key is found.
\<close>

lemma clear_loop_result:
  "clear_loop fp tb c fr = (tb', c', fr') \<Longrightarrow>
     length tb' = length tb \<and> (\<forall>s \<in> set tb'. State s = UNOCCUPIED) \<and>
     c' = c - of_nat (occupied tb)"
proof (induction tb arbitrary: c fr tb' c' fr')
  case Nil
  then show ?case by (simp add: occupied_def)
next
  case (Cons s tb)
  show ?case
  proof (cases "State s")
    case OCCUPIED
    with Cons.prems obtain tb1 where
      "clear_loop fp tb (c - 1) (if fp then fr @ [Data s] else fr) = (tb1, c', fr')"
      "tb' = s\<lparr>State := UNOCCUPIED\<rparr> # tb1"
      by (auto split: prod.splits)
    with Cons.IH [OF this(1)] OCCUPIED show ?thesis by (simp add: occupied_Cons)
  next
    case UNOCCUPIED
    with Cons.prems obtain tb1 where "clear_loop fp tb c fr = (tb1, c', fr')" "tb' = s # tb1"
      by (auto split: prod.splits)
    with Cons.IH [OF this(1)] UNOCCUPIED show ?thesis by (simp add: occupied_Cons)
  next
    case DELETED
    with Cons.prems obtain tb1 where
      "clear_loop fp tb c (if fp then fr @ [Data s] else fr) = (tb1, c', fr')"
      "tb' = s\<lparr>State := UNOCCUPIED\<rparr> # tb1"
      by (auto split: prod.splits)
    with Cons.IH [OF this(1)] DELETED show ?thesis by (simp add: occupied_Cons)
  qed
qed

lemma clear_loop_unoccupied:
  "\<forall>s \<in> set tb. State s = UNOCCUPIED \<Longrightarrow> clear_loop fp tb c fr = (tb, c, fr)"
  by (induction tb) simp_all

lemma clear_ht_facts:
  "TableSize (clear_ht cfg t) = TableSize t \<and>
   length (mTable (clear_ht cfg t)) = length (mTable t) \<and>
   (\<forall>s \<in> set (mTable (clear_ht cfg t)). State s = UNOCCUPIED) \<and>
   Count (clear_ht cfg t) = Count t - of_nat (occupied (mTable t))"
proof -
  obtain tb' c' fr' where l: "clear_loop (FreeProc cfg) (mTable t) (Count t) (freed t) = (tb', c', fr')"
    by (cases "clear_loop (FreeProc cfg) (mTable t) (Count t) (freed t)")
  from clear_loop_result [OF l] l show ?thesis by (simp add: clear_ht_def)
qed

lemma clear_ht_twice: "clear_ht cfg (clear_ht cfg t) = clear_ht cfg t"
proof -
  obtain tb' c' fr' where l: "clear_loop (FreeProc cfg) (mTable t) (Count t) (freed t) = (tb', c', fr')"
    by (cases "clear_loop (FreeProc cfg) (mTable t) (Count t) (freed t)")
  from clear_loop_result [OF l] have "\<forall>s \<in> set tb'. State s = UNOCCUPIED" by simp
  then have "clear_loop (FreeProc cfg) tb' c' fr' = (tb', c', fr')" by (rule clear_loop_unoccupied)
  with l show ?thesis by (simp add: clear_ht_def)
qed

lemma find_ht_after_clear:
  assumes "PrimaryHashFunc cfg key (TableSize t) < length (mTable t)"
  shows "fst (find_ht (Suc fuel) cfg (clear_ht cfg t) key) = Inl (Throw E_ITEM_NOT_FOUND)"
proof -
  let ?t = "clear_ht cfg t" and ?h = "PrimaryHashFunc cfg key (TableSize t)"
  from clear_ht_facts [of cfg t] assms have h: "?h < length (mTable ?t)"
    and ts: "TableSize ?t = TableSize t"
    and un: "\<forall>s \<in> set (mTable ?t). State s = UNOCCUPIED" by simp_all
  from un h have "State (mTable ?t ! ?h) = UNOCCUPIED" by simp
  with h ts show ?thesis by (simp add: find_ht_def IndexOf_def Let_def)
qed

text \<open>
  C9. The claim: \<open>clear()\<close> never fails; after it the count is 0, the capacity is
  unchanged and every key that was present is \<open>NotFound\<close>; a second \<open>clear()\<close> changes
  nothing. All of it holds but the count: \<^verbatim>\<open>clear\<close> decrements \<^verbatim>\<open>Count_\<close> once per
  occupied slot, so it ends at 0 only when the count was the number of occupied slots.
  After the two removes of C3 it is not: \<open>clear()\<close> leaves the count at \<open>2 ^ 32 - 1\<close>.
\<close>

theorem mark_clear_count:
  "map_option (\<lambda>t. Count (clear_ht (example_cfg MARK 1) t))
     (run_ops 10 (example_cfg MARK 1) (OAHashTable (example_cfg MARK 1))
        [Insert ''a'' 7, Remove ''a'', Remove ''a'']) = Some 4294967295"
  by code_simp

end
